theory Spec2Isabelle
  imports Main "HOL-Library.Monad_Syntax"
begin

section \<open>The unrolled linked list: data model\<close>

text \<open>
  The development embeds the final draft of \<^verbatim>\<open>unrolled_list<T, NodeMaxSize, Allocator>\<close>
  (the variant without a sentinel node, the one whose \<^verbatim>\<open>front()\<close> throws
  \<^verbatim>\<open>std::out_of_range\<close>). Nodes live in an explicit heap; a \<^verbatim>\<open>Node*\<close> is a
  \<open>nat option\<close> with \<open>None\<close> for \<^verbatim>\<open>nullptr\<close>. Every function that dereferences a
  pointer or touches a slot returns an \<open>option\<close>: \<open>None\<close> is undefined behaviour
  (null or dangling pointer, slot outside the node's storage, read or destruction of a
  slot that holds no object). C++ exceptions are values of \<open>outcome\<close>, returned next to the state that
  the unwinding leaves behind. The template parameter \<^verbatim>\<open>NodeMaxSize\<close> is the first
  argument of the functions that need it. Allocation itself never fails in the model.
\<close>

text \<open>
  One slot of \<^verbatim>\<open>std::byte data[sizeof(T) * NodeMaxSize]\<close>: raw storage, a live object,
  or an object that was the source of a \<^verbatim>\<open>std::move\<close> and was not destroyed (alive, its
  value unspecified).
\<close>

datatype 'a slot = Raw | Obj 'a | Moved_from

record 'a Node =
  count :: nat
  next' :: "nat option"
  prev :: "nat option"
  data :: "'a slot list"

text \<open>The data members of one \<^verbatim>\<open>unrolled_list\<close> object (the allocators are stateless).\<close>

record ulist =
  head :: "nat option"
  tail :: "nat option"
  total_size :: nat

text \<open>
  The program state: the node heap (address = position; a freed node is \<open>None\<close>) and the
  container objects by address, so that \<^verbatim>\<open>this != &other\<close> is a comparison of addresses.
\<close>

record 'a state =
  heap :: "'a Node option list"
  lists :: "nat \<Rightarrow> ulist"

record iterator =
  current_node :: "nat option"
  index_in_node :: nat
  parent :: nat

datatype exn = Out_of_range | Constructor_threw

datatype 'r outcome = Returns 'r | Throws exn

text \<open>
  The arguments of \<^verbatim>\<open>emplace\<close> are modelled by what \<^verbatim>\<open>T\<close>'s constructor does with them:
  it builds a value, or it throws.
\<close>

datatype 'a ctor = Builds 'a | Throwing

text \<open>\<^verbatim>\<open>size_type\<close> subtraction: \<^verbatim>\<open>std::size_t\<close> is 64 bits wide and wraps around.\<close>

definition size_minus :: "nat \<Rightarrow> nat \<Rightarrow> nat" where
  "size_minus a b = (if b \<le> a then a - b else a + 2 ^ 64 - b)"

subsection \<open>Heap and slot primitives\<close>

definition node_at :: "'a state \<Rightarrow> nat \<Rightarrow> 'a Node option" where
  "node_at s p = (if p < length (heap s) then heap s ! p else None)"

definition set_node :: "'a state \<Rightarrow> nat \<Rightarrow> 'a Node \<Rightarrow> 'a state" where
  "set_node s p n = s\<lparr>heap := (heap s)[p := Some n]\<rparr>"

text \<open>A write through \<^verbatim>\<open>p->\<close>: undefined when \<open>p\<close> is not a live node.\<close>

definition upd_node :: "'a state \<Rightarrow> nat \<Rightarrow> ('a Node \<Rightarrow> 'a Node) \<Rightarrow> 'a state option" where
  "upd_node s p f = (case node_at s p of None \<Rightarrow> None | Some n \<Rightarrow> Some (set_node s p (f n)))"

definition set_list :: "'a state \<Rightarrow> nat \<Rightarrow> ulist \<Rightarrow> 'a state" where
  "set_list s this c = s\<lparr>lists := (lists s)(this := c)\<rparr>"

text \<open>\<^verbatim>\<open>create_node\<close>: allocate and construct \<^verbatim>\<open>Node(allocator)\<close> at a fresh address.\<close>

definition create_node :: "nat \<Rightarrow> 'a state \<Rightarrow> 'a state \<times> nat" where
  "create_node NodeMaxSize s =
     (s\<lparr>heap := heap s @ [Some \<lparr>count = 0, next' = None, prev = None,
                                data = replicate NodeMaxSize Raw\<rparr>]\<rparr>,
      length (heap s))"

text \<open>\<^verbatim>\<open>allocator_traits::construct(allocator, elem(i), v)\<close> on the storage \<open>d\<close>.\<close>

definition construct :: "'a slot list \<Rightarrow> nat \<Rightarrow> 'a \<Rightarrow> 'a slot list option" where
  "construct d i v = (if i < length d then Some (d[i := Obj v]) else None)"

text \<open>
  \<^verbatim>\<open>allocator_traits::destroy(allocator, elem(i))\<close>: the destructor of the object in slot
  \<open>i\<close>. It is undefined when the slot holds no object (raw storage, or an object that has
  been destroyed already); a moved-from object is alive and is destroyed like any other.
\<close>

definition destroy :: "'a slot list \<Rightarrow> nat \<Rightarrow> 'a slot list option" where
  "destroy d i =
     (if i < length d
      then (case d ! i of Raw \<Rightarrow> None | _ \<Rightarrow> Some (d[i := Raw]))
      else None)"

text \<open>\<^verbatim>\<open>std::move(*elem(i))\<close> handed to a move constructor: the value and the storage after it.\<close>

definition move_out :: "'a slot list \<Rightarrow> nat \<Rightarrow> ('a \<times> 'a slot list) option" where
  "move_out d i =
     (if i < length d
      then (case d ! i of Obj v \<Rightarrow> Some (v, d[i := Moved_from]) | _ \<Rightarrow> None)
      else None)"

text \<open>\<^verbatim>\<open>*elem(i)\<close> read as a value.\<close>

definition elem :: "'a Node \<Rightarrow> nat \<Rightarrow> 'a option" where
  "elem n i =
     (if i < length (data n)
      then (case data n ! i of Obj v \<Rightarrow> Some v | _ \<Rightarrow> None)
      else None)"

text \<open>\<^verbatim>\<open>~Node()\<close>: \<^verbatim>\<open>for (i = 0; i < count; ++i) destroy(elem(i));\<close> on the storage of the node.\<close>

function dtor_loop :: "'a slot list \<Rightarrow> nat \<Rightarrow> nat \<Rightarrow> 'a slot list option" where
  "dtor_loop d i cnt =
     (if i < cnt
      then do {
        d' \<leftarrow> destroy d i;
        dtor_loop d' (i + 1) cnt
      }
      else Some d)"
  by pat_completeness auto
termination
  by (relation "measure (\<lambda>(d, i, cnt). cnt - i)") auto

declare dtor_loop.simps [simp del]

text \<open>
  \<^verbatim>\<open>destroy_node(p)\<close>: run \<^verbatim>\<open>~Node\<close> on \<^verbatim>\<open>*p\<close>, which destroys the slots below
  \<^verbatim>\<open>p->count\<close>, and give the memory back.
\<close>

definition destroy_node :: "'a state \<Rightarrow> nat \<Rightarrow> 'a state option" where
  "destroy_node s p =
     (case node_at s p of
        None \<Rightarrow> None
      | Some n \<Rightarrow>
          (case dtor_loop (data n) 0 (count n) of
             None \<Rightarrow> None
           | Some d \<Rightarrow> Some (s\<lparr>heap := (heap s)[p := None]\<rparr>)))"

subsection \<open>Iterators\<close>

definition iter_eq :: "iterator \<Rightarrow> iterator \<Rightarrow> bool" where
  "iter_eq a b \<longleftrightarrow> current_node a = current_node b \<and> index_in_node a = index_in_node b"

definition begin' :: "'a state \<Rightarrow> nat \<Rightarrow> iterator" where
  "begin' s this = \<lparr>current_node = head (lists s this), index_in_node = 0, parent = this\<rparr>"

definition end' :: "nat \<Rightarrow> iterator" where
  "end' this = \<lparr>current_node = None, index_in_node = 0, parent = this\<rparr>"

text \<open>\<^verbatim>\<open>iterator::operator++\<close> (and the identical \<^verbatim>\<open>const_iterator::operator++\<close>).\<close>

definition incr :: "'a state \<Rightarrow> iterator \<Rightarrow> iterator option" where
  "incr s it =
     (case current_node it of
        None \<Rightarrow> Some it
      | Some p \<Rightarrow>
          (case node_at s p of None \<Rightarrow> None
           | Some n \<Rightarrow>
               if index_in_node it < size_minus (count n) 1
               then Some (it\<lparr>index_in_node := index_in_node it + 1\<rparr>)
               else Some (it\<lparr>current_node := next' n, index_in_node := 0\<rparr>)))"

text \<open>\<^verbatim>\<open>iterator::operator--\<close>.\<close>

definition decr :: "'a state \<Rightarrow> iterator \<Rightarrow> iterator option" where
  "decr s it =
     (case current_node it of
        None \<Rightarrow>
          (case tail (lists s (parent it)) of
             None \<Rightarrow> Some (it\<lparr>current_node := None\<rparr>)
           | Some t \<Rightarrow>
               (case node_at s t of None \<Rightarrow> None
                | Some n \<Rightarrow> Some (it\<lparr>current_node := Some t,
                                     index_in_node := size_minus (count n) 1\<rparr>)))
      | Some p \<Rightarrow>
          if index_in_node it > 0
          then Some (it\<lparr>index_in_node := index_in_node it - 1\<rparr>)
          else
            (case node_at s p of None \<Rightarrow> None
             | Some n \<Rightarrow>
                 (case prev n of
                    None \<Rightarrow> Some (it\<lparr>current_node := None\<rparr>)
                  | Some q \<Rightarrow>
                      (case node_at s q of None \<Rightarrow> None
                       | Some m \<Rightarrow> Some (it\<lparr>current_node := Some q,
                                            index_in_node := size_minus (count m) 1\<rparr>)))))"

text \<open>\<^verbatim>\<open>iterator::operator*\<close>.\<close>

definition deref :: "'a state \<Rightarrow> iterator \<Rightarrow> 'a option" where
  "deref s it =
     (case current_node it of None \<Rightarrow> None
      | Some p \<Rightarrow> (case node_at s p of None \<Rightarrow> None | Some n \<Rightarrow> elem n (index_in_node it)))"

text \<open>
  The range-for of the drivers, \<^verbatim>\<open>for (it = begin(); it != end(); ++it)\<close>, collecting
  \<^verbatim>\<open>*it\<close>. \<open>None\<close> is undefined behaviour or a walk that never reaches \<^verbatim>\<open>end()\<close>.
\<close>

partial_function (option) iterate :: "'a state \<Rightarrow> nat \<Rightarrow> iterator \<Rightarrow> 'a list option" where
  "iterate s this it =
     (if iter_eq it (end' this) then Some []
      else do {
        v \<leftarrow> deref s it;
        it' \<leftarrow> incr s it;
        vs \<leftarrow> iterate s this it';
        Some (v # vs)
      })"

definition elements :: "'a state \<Rightarrow> nat \<Rightarrow> 'a list option" where
  "elements s this = iterate s this (begin' s this)"

definition size' :: "'a state \<Rightarrow> nat \<Rightarrow> nat" where
  "size' s this = total_size (lists s this)"

definition empty :: "'a state \<Rightarrow> nat \<Rightarrow> bool" where
  "empty s this \<longleftrightarrow> total_size (lists s this) = 0"

subsection \<open>Insertion\<close>

text \<open>
  The first loop of \<^verbatim>\<open>emplace_into_node_\<close>, on the storage of \<^verbatim>\<open>node\<close> and of
  \<^verbatim>\<open>newNode\<close>:
  \<^verbatim>\<open>for (i = 0; i < dataToMove; i++) construct(newNode->elem(i), std::move(*node->elem(startIndex + i)));\<close>
\<close>

function split_loop ::
  "'a slot list \<Rightarrow> 'a slot list \<Rightarrow> nat \<Rightarrow> nat \<Rightarrow> nat \<Rightarrow> ('a slot list \<times> 'a slot list) option" where
  "split_loop dn dnew i dataToMove startIndex =
     (if i < dataToMove
      then do {
        (v, dn') \<leftarrow> move_out dn (startIndex + i);
        dnew' \<leftarrow> construct dnew i v;
        split_loop dn' dnew' (i + 1) dataToMove startIndex
      }
      else Some (dn, dnew))"
  by pat_completeness auto
termination
  by (relation "measure (\<lambda>(dn, dnew, i, dataToMove, startIndex). dataToMove - i)") auto

declare split_loop.simps [simp del]

text \<open>
  The second loop, \<^verbatim>\<open>for (i = node->count; i > ptr; i--)\<close>: the top element is
  move-constructed into the free slot above it, every other one goes through \<^verbatim>\<open>temp\<close>.
\<close>

function shift_loop :: "'a slot list \<Rightarrow> nat \<Rightarrow> nat \<Rightarrow> nat \<Rightarrow> 'a slot list option" where
  "shift_loop d cnt ptr i =
     (if i > ptr
      then (if i = cnt
            then do {
              (v, d1) \<leftarrow> move_out d (i - 1);
              d2 \<leftarrow> construct d1 i v;
              d3 \<leftarrow> destroy d2 (i - 1);
              shift_loop d3 cnt ptr (i - 1)
            }
            else do {
              (temp, d1) \<leftarrow> move_out d (i - 1);
              d2 \<leftarrow> destroy d1 (i - 1);
              d3 \<leftarrow> construct d2 i temp;
              shift_loop d3 cnt ptr (i - 1)
            })
      else Some d)"
  by pat_completeness auto
termination
  by (relation "measure (\<lambda>(d, cnt, ptr, i). i)") auto

declare shift_loop.simps [simp del]

text \<open>
  The body of \<^verbatim>\<open>if (node->count == NodeMaxSize)\<close>: split the full node \<open>node\<close>; the result
  is the state, the node and the index that the insertion goes on with.
\<close>

definition split_node ::
  "nat \<Rightarrow> 'a state \<Rightarrow> nat \<Rightarrow> nat \<Rightarrow> nat \<Rightarrow> ('a state \<times> nat \<times> nat) option" where
  "split_node NodeMaxSize s this node ptr =
     (let (s1, newNode) = create_node NodeMaxSize s;
          dataToMove = NodeMaxSize div 2;
          startIndex = NodeMaxSize - dataToMove
      in do {
        n \<leftarrow> node_at s1 node;
        nn \<leftarrow> node_at s1 newNode;
        (dn, dnew) \<leftarrow> split_loop (data n) (data nn) 0 dataToMove startIndex;
        s2 \<leftarrow> upd_node s1 node (\<lambda>n. n\<lparr>data := dn, count := startIndex\<rparr>);
        n2 \<leftarrow> node_at s2 node;
        s3 \<leftarrow> upd_node s2 newNode
                (\<lambda>m. m\<lparr>data := dnew, count := dataToMove, next' := next' n2, prev := Some node\<rparr>);
        s4 \<leftarrow> upd_node s3 node (\<lambda>n. n\<lparr>next' := Some newNode\<rparr>);
        nn4 \<leftarrow> node_at s4 newNode;
        s5 \<leftarrow> (case next' nn4 of
                 None \<Rightarrow> Some s4
               | Some q \<Rightarrow> upd_node s4 q (\<lambda>m. m\<lparr>prev := Some newNode\<rparr>));
        let s6 = (if Some node = tail (lists s5 this)
                  then set_list s5 this ((lists s5 this)\<lparr>tail := Some newNode\<rparr>)
                  else s5);
        n6 \<leftarrow> node_at s6 node;
        if ptr > count n6
        then Some (s6, newNode, size_minus ptr (count n6))
        else Some (s6, node, ptr)
      })"

text \<open>
  The part of \<^verbatim>\<open>emplace_into_node_\<close> after the split: shift the elements from \<open>ptr\<close> on
  one slot up, construct the new element at \<open>ptr\<close>, count it. When \<^verbatim>\<open>T\<close>'s constructor
  throws, the exception leaves the function with the shift done.
\<close>

definition shift_and_construct ::
  "'a state \<Rightarrow> nat \<Rightarrow> nat \<Rightarrow> nat \<Rightarrow> 'a ctor \<Rightarrow> ('a state \<times> iterator outcome) option" where
  "shift_and_construct s1 this node ptr args = do {
     n1 \<leftarrow> node_at s1 node;
     d \<leftarrow> shift_loop (data n1) (count n1) ptr (count n1);
     let s2 = set_node s1 node (n1\<lparr>data := d\<rparr>);
     (if ptr < length d
      then (case args of
              Throwing \<Rightarrow> Some (s2, Throws Constructor_threw)
            | Builds v \<Rightarrow>
                let s3 = set_node s2 node (n1\<lparr>data := d[ptr := Obj v], count := count n1 + 1\<rparr>);
                    c = lists s3 this;
                    s4 = set_list s3 this (c\<lparr>total_size := total_size c + 1\<rparr>)
                in Some (s4, Returns \<lparr>current_node = Some node, index_in_node = ptr,
                                      parent = this\<rparr>))
      else None)
   }"

text \<open>\<^verbatim>\<open>emplace_into_node_(node, ptr, args...)\<close>.\<close>

definition emplace_into_node ::
  "nat \<Rightarrow> 'a state \<Rightarrow> nat \<Rightarrow> nat option \<Rightarrow> nat \<Rightarrow> 'a ctor \<Rightarrow> ('a state \<times> iterator outcome) option" where
  "emplace_into_node NodeMaxSize s this node0 ptr0 args =
     (case node0 of
        None \<Rightarrow> None
      | Some p0 \<Rightarrow> do {
          n0 \<leftarrow> node_at s p0;
          (s1, node, ptr) \<leftarrow>
             (if count n0 = NodeMaxSize then split_node NodeMaxSize s this p0 ptr0
              else Some (s, p0, ptr0));
          shift_and_construct s1 this node ptr args
        })"

text \<open>\<^verbatim>\<open>emplace(pos, args...)\<close>.\<close>

definition emplace ::
  "nat \<Rightarrow> 'a state \<Rightarrow> nat \<Rightarrow> iterator \<Rightarrow> 'a ctor \<Rightarrow> ('a state \<times> iterator outcome) option" where
  "emplace NodeMaxSize s this pos args =
     (let s1 = (if head (lists s this) = None
                then (let (s', p) = create_node NodeMaxSize s
                      in set_list s' this ((lists s' this)\<lparr>head := Some p, tail := Some p\<rparr>))
                else s)
      in if current_node pos = None
         then (case tail (lists s1 this) of
                 None \<Rightarrow> None
               | Some t \<Rightarrow> do {
                   n \<leftarrow> node_at s1 t;
                   emplace_into_node NodeMaxSize s1 this (Some t) (count n) args
                 })
         else emplace_into_node NodeMaxSize s1 this (current_node pos) (index_in_node pos) args)"

definition emplace_back ::
  "nat \<Rightarrow> 'a state \<Rightarrow> nat \<Rightarrow> 'a ctor \<Rightarrow> ('a state \<times> unit outcome) option" where
  "emplace_back NodeMaxSize s this args =
     (case emplace NodeMaxSize s this (end' this) args of
        None \<Rightarrow> None
      | Some (s', Throws e) \<Rightarrow> Some (s', Throws e)
      | Some (s', Returns it) \<Rightarrow> Some (s', Returns ()))"

definition push_back ::
  "nat \<Rightarrow> 'a state \<Rightarrow> nat \<Rightarrow> 'a ctor \<Rightarrow> ('a state \<times> unit outcome) option" where
  "push_back NodeMaxSize s this val = emplace_back NodeMaxSize s this val"

definition push_front ::
  "nat \<Rightarrow> 'a state \<Rightarrow> nat \<Rightarrow> 'a ctor \<Rightarrow> ('a state \<times> unit outcome) option" where
  "push_front NodeMaxSize s this val =
     (case emplace NodeMaxSize s this (begin' s this) val of
        None \<Rightarrow> None
      | Some (s', Throws e) \<Rightarrow> Some (s', Throws e)
      | Some (s', Returns it) \<Rightarrow> Some (s', Returns ()))"

definition insert' ::
  "nat \<Rightarrow> 'a state \<Rightarrow> nat \<Rightarrow> iterator \<Rightarrow> 'a ctor \<Rightarrow> ('a state \<times> iterator outcome) option" where
  "insert' NodeMaxSize s this pos val = emplace NodeMaxSize s this pos val"

subsection \<open>Erasure\<close>

text \<open>\<^verbatim>\<open>for (i = from; i < to; ++i) { destroy(elem(i)); ++erasedCount; }\<close>\<close>

function destroy_loop :: "'a slot list \<Rightarrow> nat \<Rightarrow> nat \<Rightarrow> nat \<Rightarrow> ('a slot list \<times> nat) option" where
  "destroy_loop d i to erasedCount =
     (if i < to
      then do {
        d' \<leftarrow> destroy d i;
        destroy_loop d' (i + 1) to (erasedCount + 1)
      }
      else Some (d, erasedCount))"
  by pat_completeness auto
termination
  by (relation "measure (\<lambda>(d, i, to, erasedCount). to - i)") auto

declare destroy_loop.simps [simp del]

text \<open>
  The loop of \<^verbatim>\<open>normalize_node\<close>:
  \<^verbatim>\<open>for (i = from; i < p->count; ++i) { construct(elem(i - shift), std::move(*elem(i))); destroy(elem(i)); }\<close>
\<close>

function normalize_loop :: "'a slot list \<Rightarrow> nat \<Rightarrow> nat \<Rightarrow> nat \<Rightarrow> 'a slot list option" where
  "normalize_loop d i cnt shift =
     (if i < cnt
      then do {
        (v, d1) \<leftarrow> move_out d i;
        d2 \<leftarrow> construct d1 (size_minus i shift) v;
        d3 \<leftarrow> destroy d2 i;
        normalize_loop d3 (i + 1) cnt shift
      }
      else Some d)"
  by pat_completeness auto
termination
  by (relation "measure (\<lambda>(d, i, cnt, shift). cnt - i)") auto

declare normalize_loop.simps [simp del]

definition normalize_node :: "'a state \<Rightarrow> nat \<Rightarrow> nat \<Rightarrow> nat \<Rightarrow> 'a state option" where
  "normalize_node s p from shift =
     (if shift = 0 then Some s
      else do {
        n \<leftarrow> node_at s p;
        d \<leftarrow> normalize_loop (data n) from (count n) shift;
        Some (set_node s p (n\<lparr>data := d\<rparr>))
      })"

text \<open>\<^verbatim>\<open>remove_node(node)\<close>: unlink and destroy a node, return the position after it.\<close>

definition remove_node :: "'a state \<Rightarrow> nat \<Rightarrow> nat \<Rightarrow> ('a state \<times> iterator) option" where
  "remove_node s this node =
     (let c = lists s this in
      if head c = tail c then do {
        s1 \<leftarrow> destroy_node s node;
        Some (set_list s1 this (c\<lparr>head := None, tail := None\<rparr>),
              \<lparr>current_node = None, index_in_node = 0, parent = this\<rparr>)
      }
      else if Some node = head c then do {
        n \<leftarrow> node_at s node;
        let s1 = set_list s this (c\<lparr>head := next' n\<rparr>);
        h \<leftarrow> next' n;
        s2 \<leftarrow> upd_node s1 h (\<lambda>m. m\<lparr>prev := None\<rparr>);
        s3 \<leftarrow> destroy_node s2 node;
        Some (s3, \<lparr>current_node = Some h, index_in_node = 0, parent = this\<rparr>)
      }
      else if Some node = tail c then do {
        n \<leftarrow> node_at s node;
        let s1 = set_list s this (c\<lparr>tail := prev n\<rparr>);
        t \<leftarrow> prev n;
        s2 \<leftarrow> upd_node s1 t (\<lambda>m. m\<lparr>next' := None\<rparr>);
        s3 \<leftarrow> destroy_node s2 node;
        Some (s3, \<lparr>current_node = None, index_in_node = 0, parent = this\<rparr>)
      }
      else do {
        n \<leftarrow> node_at s node;
        let next_node = next' n;
        p \<leftarrow> prev n;
        s1 \<leftarrow> upd_node s p (\<lambda>m. m\<lparr>next' := next' n\<rparr>);
        n1 \<leftarrow> node_at s1 node;
        q \<leftarrow> next' n1;
        s2 \<leftarrow> upd_node s1 q (\<lambda>m. m\<lparr>prev := prev n1\<rparr>);
        s3 \<leftarrow> destroy_node s2 node;
        Some (s3, \<lparr>current_node = next_node, index_in_node = 0, parent = this\<rparr>)
      })"

text \<open>The number of live nodes: what the loops that free one node per round count down.\<close>

definition live_nodes :: "'a state \<Rightarrow> nat" where
  "live_nodes s = length (filter (\<lambda>x. x \<noteq> None) (heap s))"

text \<open>
  The loop over the nodes strictly between the first and the last node of the range:
  \<^verbatim>\<open>while (cur && cur != end_node) { destroy all of cur; next = cur->next; remove_node(cur); cur = next; }\<close>
\<close>

function erase_between ::
  "'a state \<Rightarrow> nat \<Rightarrow> nat option \<Rightarrow> nat \<Rightarrow> nat \<Rightarrow> ('a state \<times> nat) option" where
  "erase_between s this cur end_node erasedCount =
     (case cur of
        None \<Rightarrow> Some (s, erasedCount)
      | Some p \<Rightarrow>
          if p = end_node then Some (s, erasedCount)
          else
            (case node_at s p of
               None \<Rightarrow> None
             | Some n \<Rightarrow>
                 (case destroy_loop (data n) 0 (count n) erasedCount of
                    None \<Rightarrow> None
                  | Some (d, erasedCount') \<Rightarrow>
                      (case remove_node (set_node s p (n\<lparr>data := d\<rparr>)) this p of
                         None \<Rightarrow> None
                       | Some (s', it) \<Rightarrow> erase_between s' this (next' n) end_node erasedCount'))))"
  by pat_completeness auto

text \<open>
  The branch \<^verbatim>\<open>if (start_node == end_node)\<close> of \<^verbatim>\<open>erase(first, last)\<close>: the range lies in
  one node.
\<close>

definition erase_in_node ::
  "'a state \<Rightarrow> nat \<Rightarrow> nat \<Rightarrow> nat \<Rightarrow> nat \<Rightarrow> nat \<Rightarrow> ('a state \<times> iterator) option" where
  "erase_in_node s this start_node start_index end_node end_index = do {
     n \<leftarrow> node_at s start_node;
     (d, erasedCount) \<leftarrow> destroy_loop (data n) start_index end_index 0;
     let s1 = set_node s start_node (n\<lparr>data := d\<rparr>);
     s2 \<leftarrow> normalize_node s1 end_node end_index erasedCount;
     s3 \<leftarrow> upd_node s2 start_node (\<lambda>m. m\<lparr>count := size_minus (count m) erasedCount\<rparr>);
     let c = lists s3 this;
     let s4 = set_list s3 this (c\<lparr>total_size := size_minus (total_size c) erasedCount\<rparr>);
     n4 \<leftarrow> node_at s4 start_node;
     if count n4 = 0 then remove_node s4 this start_node
     else Some (s4, \<lparr>current_node = Some start_node, index_in_node = start_index,
                      parent = this\<rparr>)
   }"

text \<open>
  The rest of \<^verbatim>\<open>erase(first, last)\<close>: the range starts in one node and ends in another.
\<close>

definition erase_across ::
  "'a state \<Rightarrow> nat \<Rightarrow> nat \<Rightarrow> nat \<Rightarrow> nat \<Rightarrow> nat \<Rightarrow> ('a state \<times> iterator) option" where
  "erase_across s this start_node start_index end_node end_index = do {
     n \<leftarrow> node_at s start_node;
     (d, erasedCount) \<leftarrow> destroy_loop (data n) start_index (count n) 0;
     let s1 = set_node s start_node (n\<lparr>data := d, count := start_index\<rparr>);
     n1 \<leftarrow> node_at s1 start_node;
     let cur = next' n1;
     s2 \<leftarrow> (if count n1 = 0 then map_option fst (remove_node s1 this start_node)
             else Some s1);
     (s3, erasedCount3) \<leftarrow> erase_between s2 this cur end_node erasedCount;
     ne \<leftarrow> node_at s3 end_node;
     (de, erasedCount4) \<leftarrow> destroy_loop (data ne) 0 end_index erasedCount3;
     let s4 = set_node s3 end_node (ne\<lparr>data := de\<rparr>);
     s5 \<leftarrow> normalize_node s4 end_node end_index end_index;
     s6 \<leftarrow> upd_node s5 end_node (\<lambda>m. m\<lparr>count := size_minus (count m) end_index\<rparr>);
     let c = lists s6 this;
     let s7 = set_list s6 this (c\<lparr>total_size := size_minus (total_size c) erasedCount4\<rparr>);
     n7 \<leftarrow> node_at s7 end_node;
     if count n7 = 0 then remove_node s7 this end_node
     else Some (s7, \<lparr>current_node = Some end_node, index_in_node = 0, parent = this\<rparr>)
   }"

text \<open>\<^verbatim>\<open>erase(first, last)\<close>.\<close>

definition erase ::
  "'a state \<Rightarrow> nat \<Rightarrow> iterator \<Rightarrow> iterator \<Rightarrow> ('a state \<times> iterator) option" where
  "erase s this first last' =
     (if iter_eq first last' \<or> total_size (lists s this) = 0
      then Some (s, \<lparr>current_node = current_node first, index_in_node = index_in_node first,
                      parent = this\<rparr>)
      else do {
        (end_node, end_index) \<leftarrow>
           (case current_node last' of
              Some p \<Rightarrow> Some (p, index_in_node last')
            | None \<Rightarrow> do {
                t \<leftarrow> tail (lists s this);
                n \<leftarrow> node_at s t;
                Some (t, count n)
              });
        (start_node, start_index) \<leftarrow>
           (case current_node first of
              Some p \<Rightarrow> Some (p, index_in_node first)
            | None \<Rightarrow> do { h \<leftarrow> head (lists s this); Some (h, 0) });
        if start_node = end_node
        then erase_in_node s this start_node start_index end_node end_index
        else erase_across s this start_node start_index end_node end_index
      })"

text \<open>\<^verbatim>\<open>erase(pos)\<close>: \<^verbatim>\<open>pos_end = pos; ++pos_end; return erase(pos, pos_end);\<close>\<close>

definition erase1 :: "'a state \<Rightarrow> nat \<Rightarrow> iterator \<Rightarrow> ('a state \<times> iterator) option" where
  "erase1 s this pos = do {
     pos_end \<leftarrow> incr s pos;
     erase s this pos pos_end
   }"

definition pop_front :: "'a state \<Rightarrow> nat \<Rightarrow> 'a state option" where
  "pop_front s this = map_option fst (erase1 s this (begin' s this))"

definition pop_back :: "'a state \<Rightarrow> nat \<Rightarrow> 'a state option" where
  "pop_back s this = do {
     it \<leftarrow> decr s (end' this);
     map_option fst (erase1 s this it)
   }"

text \<open>The loop of \<^verbatim>\<open>clear\<close>: \<^verbatim>\<open>while (cur) { next = cur->next; destroy_node(cur); cur = next; }\<close>\<close>

function clear_loop :: "'a state \<Rightarrow> nat option \<Rightarrow> 'a state option" where
  "clear_loop s cur =
     (case cur of
        None \<Rightarrow> Some s
      | Some p \<Rightarrow>
          (case node_at s p of
             None \<Rightarrow> None
           | Some n \<Rightarrow>
               (case destroy_node s p of
                  None \<Rightarrow> None
                | Some s' \<Rightarrow> clear_loop s' (next' n))))"
  by pat_completeness auto

definition clear :: "'a state \<Rightarrow> nat \<Rightarrow> 'a state option" where
  "clear s this = do {
     s1 \<leftarrow> clear_loop s (head (lists s this));
     Some (set_list s1 this \<lparr>head = None, tail = None, total_size = 0\<rparr>)
   }"

subsection \<open>Element access\<close>

definition front :: "'a state \<Rightarrow> nat \<Rightarrow> 'a outcome option" where
  "front s this =
     (case head (lists s this) of
        None \<Rightarrow> Some (Throws Out_of_range)
      | Some h \<Rightarrow> do { n \<leftarrow> node_at s h; v \<leftarrow> elem n 0; Some (Returns v) })"

definition back' :: "'a state \<Rightarrow> nat \<Rightarrow> 'a outcome option" where
  "back' s this =
     (case tail (lists s this) of
        None \<Rightarrow> Some (Throws Out_of_range)
      | Some t \<Rightarrow> do { n \<leftarrow> node_at s t; v \<leftarrow> elem n (size_minus (count n) 1); Some (Returns v) })"

subsection \<open>Construction and assignment\<close>

text \<open>\<^verbatim>\<open>unrolled_list()\<close>: the members of a default-constructed container.\<close>

definition default_list :: ulist where
  "default_list = \<lparr>head = None, tail = None, total_size = 0\<rparr>"

text \<open>
  \<^verbatim>\<open>unrolled_list(unrolled_list&& other) noexcept\<close>, constructing the object at address
  \<open>this\<close>.
\<close>

definition move_construct :: "'a state \<Rightarrow> nat \<Rightarrow> nat \<Rightarrow> 'a state" where
  "move_construct s this other =
     (let o' = lists s other;
          s1 = set_list s this \<lparr>head = head o', tail = tail o', total_size = total_size o'\<rparr>
      in set_list s1 other ((lists s1 other)\<lparr>head := None, tail := None, total_size := 0\<rparr>))"

text \<open>
  The inner loop of the copy constructor:
  \<^verbatim>\<open>for (i = 0; i < cur->count; ++i) construct(new_node->elem(i), *cur->elem(i));\<close>
\<close>

function copy_loop :: "'a Node \<Rightarrow> 'a slot list \<Rightarrow> nat \<Rightarrow> 'a slot list option" where
  "copy_loop cur d i =
     (if i < count cur
      then do {
        v \<leftarrow> elem cur i;
        d' \<leftarrow> construct d i v;
        copy_loop cur d' (i + 1)
      }
      else Some d)"
  by pat_completeness auto
termination
  by (relation "measure (\<lambda>(cur, d, i). count cur - i)") auto

declare copy_loop.simps [simp del]

text \<open>
  The outer loop, \<^verbatim>\<open>for (cur = other.head; cur != nullptr; cur = cur->next)\<close>. On a
  chain with a cycle it does not end, which is the value \<open>None\<close>.
\<close>

partial_function (option) copy_nodes :: "nat \<Rightarrow> 'a state \<Rightarrow> nat \<Rightarrow> nat option \<Rightarrow> 'a state option" where
  "copy_nodes NodeMaxSize s this cur =
     (case cur of
        None \<Rightarrow> Some s
      | Some p \<Rightarrow> do {
          n \<leftarrow> node_at s p;
          let (s1, new_node) = create_node NodeMaxSize s;
          nn \<leftarrow> node_at s1 new_node;
          d \<leftarrow> copy_loop n (data nn) 0;
          s2 \<leftarrow> upd_node s1 new_node (\<lambda>m. m\<lparr>data := d, count := count n\<rparr>);
          s3 \<leftarrow> (case tail (lists s2 this) of
                   Some t \<Rightarrow> do {
                     sa \<leftarrow> upd_node s2 t (\<lambda>m. m\<lparr>next' := Some new_node\<rparr>);
                     sb \<leftarrow> upd_node sa new_node (\<lambda>m. m\<lparr>prev := Some t\<rparr>);
                     Some (set_list sb this ((lists sb this)\<lparr>tail := Some new_node\<rparr>))
                   }
                 | None \<Rightarrow>
                     Some (set_list s2 this
                             ((lists s2 this)\<lparr>head := Some new_node, tail := Some new_node\<rparr>)));
          n3 \<leftarrow> node_at s3 new_node;
          let c = lists s3 this;
          let s4 = set_list s3 this (c\<lparr>total_size := total_size c + count n3\<rparr>);
          n4 \<leftarrow> node_at s4 p;
          copy_nodes NodeMaxSize s4 this (next' n4)
        })"

text \<open>\<^verbatim>\<open>unrolled_list(const unrolled_list& other)\<close>, constructing the object at \<open>this\<close>.\<close>

definition copy_construct :: "nat \<Rightarrow> 'a state \<Rightarrow> nat \<Rightarrow> nat \<Rightarrow> 'a state option" where
  "copy_construct NodeMaxSize s this other =
     copy_nodes NodeMaxSize (set_list s this default_list) this (head (lists s other))"

text \<open>The private \<^verbatim>\<open>swap(other)\<close>.\<close>

definition swap' :: "'a state \<Rightarrow> nat \<Rightarrow> nat \<Rightarrow> 'a state" where
  "swap' s this other =
     (let a = lists s this; b = lists s other
      in set_list (set_list s this b) other a)"

text \<open>
  \<^verbatim>\<open>operator=(const unrolled_list& other)\<close>. The local \<^verbatim>\<open>tmp\<close> is the container object at
  address \<open>tmp\<close>; its destructor (\<^verbatim>\<open>clear()\<close>) runs at the end of the block.
\<close>

definition copy_assign :: "nat \<Rightarrow> 'a state \<Rightarrow> nat \<Rightarrow> nat \<Rightarrow> nat \<Rightarrow> 'a state option" where
  "copy_assign NodeMaxSize s this other tmp =
     (if this \<noteq> other
      then do {
        s1 \<leftarrow> copy_construct NodeMaxSize s tmp other;
        let s2 = swap' s1 this tmp;
        clear s2 tmp
      }
      else Some s)"

text \<open>\<^verbatim>\<open>operator=(unrolled_list&& other) noexcept\<close>.\<close>

definition move_assign :: "'a state \<Rightarrow> nat \<Rightarrow> nat \<Rightarrow> 'a state option" where
  "move_assign s this other =
     (if this \<noteq> other
      then do {
        s1 \<leftarrow> clear s this;
        let o' = lists s1 other;
        let s2 = set_list s1 this \<lparr>head = head o', tail = tail o', total_size = total_size o'\<rparr>;
        Some (set_list s2 other ((lists s2 other)\<lparr>head := None, tail := None, total_size := 0\<rparr>))
      }
      else Some s)"

subsection \<open>The driver program\<close>

text \<open>
  A program starts with no node allocated; \<^verbatim>\<open>unrolled_list<int> a;\<close> default-constructs
  the container at its address.
\<close>

definition initial_state :: "'a state" where
  "initial_state = \<lparr>heap = [], lists = (\<lambda>_. default_list)\<rparr>"

definition default_construct :: "'a state \<Rightarrow> nat \<Rightarrow> 'a state" where
  "default_construct s this = set_list s this default_list"

text \<open>\<^verbatim>\<open>for (int i = lo; i <= hi; ++i) a.push_back(i);\<close>\<close>

function push_back_range :: "nat \<Rightarrow> int state \<Rightarrow> nat \<Rightarrow> int \<Rightarrow> int \<Rightarrow> int state option" where
  "push_back_range NodeMaxSize s a i hi =
     (if i \<le> hi
      then (case push_back NodeMaxSize s a (Builds i) of
              Some (s', Returns u) \<Rightarrow> push_back_range NodeMaxSize s' a (i + 1) hi
            | _ \<Rightarrow> None)
      else Some s)"
  by pat_completeness auto
termination
  by (relation "measure (\<lambda>(NodeMaxSize, s, a, i, hi). nat (hi + 1 - i))") auto

declare push_back_range.simps [simp del]

text \<open>\<^verbatim>\<open>for (int i = 0; i < k; ++i) a.pop_front();\<close>\<close>

function pop_front_times :: "int state \<Rightarrow> nat \<Rightarrow> int \<Rightarrow> int \<Rightarrow> int state option" where
  "pop_front_times s a i k =
     (if i < k
      then (case pop_front s a of
              Some s' \<Rightarrow> pop_front_times s' a (i + 1) k
            | None \<Rightarrow> None)
      else Some s)"
  by pat_completeness auto
termination
  by (relation "measure (\<lambda>(s, a, i, k). nat (k - i))") auto

declare pop_front_times.simps [simp del]

text \<open>
  \<^verbatim>\<open>main\<close> of the driver that pushes 1..14 and pops five times; the result is what it
  prints: \<^verbatim>\<open>a.size()\<close> and the elements of the range-for.
\<close>

definition main_push_pop :: "nat \<Rightarrow> (nat \<times> int list) option" where
  "main_push_pop NodeMaxSize = do {
     let s0 = default_construct initial_state 0;
     s1 \<leftarrow> push_back_range NodeMaxSize s0 0 1 14;
     s2 \<leftarrow> pop_front_times s1 0 0 5;
     xs \<leftarrow> elements s2 0;
     Some (size' s2 0, xs)
   }"

subsection \<open>Well-formed containers\<close>

text \<open>
  \<open>dseg s pr p as q\<close>: starting at the pointer \<open>p\<close>, the \<^verbatim>\<open>next\<close> pointers run through
  exactly the live nodes \<open>as\<close> and end in \<open>q\<close>; the \<^verbatim>\<open>prev\<close> pointer of the first node is
  \<open>pr\<close> and every other \<^verbatim>\<open>prev\<close> is the inverse of the \<^verbatim>\<open>next\<close> before it.
\<close>

fun dseg :: "'a state \<Rightarrow> nat option \<Rightarrow> nat option \<Rightarrow> nat list \<Rightarrow> nat option \<Rightarrow> bool" where
  "dseg s pr p [] q \<longleftrightarrow> p = q"
| "dseg s pr p (a # as) q \<longleftrightarrow>
     p = Some a \<and>
     (case node_at s a of
        None \<Rightarrow> False
      | Some n \<Rightarrow> prev n = pr \<and> dseg s (Some a) (next' n) as q)"

text \<open>
  The nodes reachable from \<^verbatim>\<open>head\<close> are \<open>as\<close>, in this order: \<^verbatim>\<open>head\<close> and \<^verbatim>\<open>tail\<close> are
  the first and the last of them (both null when there is none), the chain ends in
  \<^verbatim>\<open>nullptr\<close> and visits no node twice.
\<close>

definition chain :: "'a state \<Rightarrow> nat \<Rightarrow> nat list \<Rightarrow> bool" where
  "chain s this as \<longleftrightarrow>
     dseg s None (head (lists s this)) as None \<and>
     tail (lists s this) = (if as = [] then None else Some (last as)) \<and>
     distinct as"

fun is_obj :: "'a slot \<Rightarrow> bool" where
  "is_obj (Obj v) = True"
| "is_obj _ = False"

text \<open>
  The invariant of one node: \<^verbatim>\<open>lo <= count <= NodeMaxSize\<close>, storage for
  \<^verbatim>\<open>NodeMaxSize\<close> elements, and a live element in every slot below \<^verbatim>\<open>count\<close>.
\<close>

definition node_ok :: "nat \<Rightarrow> nat \<Rightarrow> 'a Node \<Rightarrow> bool" where
  "node_ok lo NodeMaxSize n \<longleftrightarrow>
     lo \<le> count n \<and> count n \<le> NodeMaxSize \<and> length (data n) = NodeMaxSize \<and>
     list_all is_obj (take (count n) (data n))"

definition nodes_ok :: "nat \<Rightarrow> nat \<Rightarrow> 'a state \<Rightarrow> nat list \<Rightarrow> bool" where
  "nodes_ok lo NodeMaxSize s as \<longleftrightarrow>
     list_all (\<lambda>a. case node_at s a of None \<Rightarrow> False | Some n \<Rightarrow> node_ok lo NodeMaxSize n) as"

definition count_at :: "'a state \<Rightarrow> nat \<Rightarrow> nat" where
  "count_at s a = (case node_at s a of None \<Rightarrow> 0 | Some n \<Rightarrow> count n)"

text \<open>
  The invariant of the container at \<open>this\<close> with the node chain \<open>as\<close>: every node of the
  chain holds between 1 and \<^verbatim>\<open>NodeMaxSize\<close> elements, and \<^verbatim>\<open>total_size\<close> is the sum of
  the counts.
\<close>

definition wf_list :: "nat \<Rightarrow> 'a state \<Rightarrow> nat \<Rightarrow> nat list \<Rightarrow> bool" where
  "wf_list NodeMaxSize s this as \<longleftrightarrow>
     chain s this as \<and> nodes_ok 1 NodeMaxSize s as \<and>
     total_size (lists s this) = sum_list (map (count_at s) as)"

text \<open>The two link fields of a node, and the other two: what a proof step leaves alone.\<close>

definition links_at :: "'a state \<Rightarrow> nat \<Rightarrow> (nat option \<times> nat option) option" where
  "links_at s a = map_option (\<lambda>n. (next' n, prev n)) (node_at s a)"

definition payload_at :: "'a state \<Rightarrow> nat \<Rightarrow> (nat \<times> 'a slot list) option" where
  "payload_at s a = map_option (\<lambda>n. (count n, data n)) (node_at s a)"

text \<open>The sequence of elements that a well-formed container stands for.\<close>

fun vals_of :: "'a slot list \<Rightarrow> 'a list" where
  "vals_of [] = []"
| "vals_of (Obj v # xs) = v # vals_of xs"
| "vals_of (x # xs) = vals_of xs"

definition node_vals :: "'a state \<Rightarrow> nat \<Rightarrow> 'a list" where
  "node_vals s a =
     (case node_at s a of None \<Rightarrow> [] | Some n \<Rightarrow> vals_of (take (count n) (data n)))"

definition contents :: "'a state \<Rightarrow> nat list \<Rightarrow> 'a list" where
  "contents s as = concat (map (node_vals s) as)"

text \<open>The position of a node in the chain.\<close>

definition pos_in :: "nat list \<Rightarrow> nat \<Rightarrow> nat" where
  "pos_in as a = length (takeWhile (\<lambda>x. x \<noteq> a) as)"

text \<open>An iterator that denotes an element of the container.\<close>

definition valid_iter :: "'a state \<Rightarrow> nat list \<Rightarrow> iterator \<Rightarrow> bool" where
  "valid_iter s as it \<longleftrightarrow>
     (case current_node it of
        None \<Rightarrow> False
      | Some a \<Rightarrow> a \<in> set as \<and> index_in_node it < count_at s a)"

text \<open>An insertion position: an element of the container, or \<^verbatim>\<open>end()\<close>.\<close>

definition valid_pos :: "'a state \<Rightarrow> nat list \<Rightarrow> iterator \<Rightarrow> bool" where
  "valid_pos s as it \<longleftrightarrow> current_node it = None \<or> valid_iter s as it"

text \<open>
  A non-empty range: \<open>first\<close> denotes an element, \<open>last'\<close> denotes a later element or has a
  null node pointer (\<^verbatim>\<open>end()\<close>).
\<close>

definition valid_range :: "'a state \<Rightarrow> nat list \<Rightarrow> iterator \<Rightarrow> iterator \<Rightarrow> bool" where
  "valid_range s as first last' \<longleftrightarrow>
     valid_iter s as first \<and>
     (case current_node last' of
        None \<Rightarrow> True
      | Some e \<Rightarrow>
          valid_iter s as last' \<and>
          (case current_node first of
             None \<Rightarrow> False
           | Some a \<Rightarrow>
               pos_in as a < pos_in as e \<or>
               (a = e \<and> index_in_node first < index_in_node last')))"

text \<open>
  A range that touches at most two nodes: the node where it ends (the tail for \<^verbatim>\<open>end()\<close>)
  is the node where it starts or the one after it.
\<close>

definition adjacent_range :: "nat list \<Rightarrow> iterator \<Rightarrow> iterator \<Rightarrow> bool" where
  "adjacent_range as first last' \<longleftrightarrow>
     (case current_node first of
        None \<Rightarrow> True
      | Some a \<Rightarrow>
          pos_in as (case current_node last' of None \<Rightarrow> last as | Some e \<Rightarrow> e)
            \<le> pos_in as a + 1)"

subsection \<open>The public mutating operations\<close>

text \<open>
  The mutating member functions of one container, by name, and the call of one of them on
  the container at \<open>this\<close>. The value a call returns is dropped here: what is kept is the
  state it leaves and whether it returned or threw.
\<close>

datatype 'a operation =
    Emplace iterator "'a ctor"
  | Insert iterator "'a ctor"
  | Emplace_back "'a ctor"
  | Push_back "'a ctor"
  | Push_front "'a ctor"
  | Erase iterator iterator
  | Erase_at iterator
  | Pop_front
  | Pop_back
  | Clear

definition forget :: "('a state \<times> 'r outcome) option \<Rightarrow> ('a state \<times> unit outcome) option" where
  "forget r =
     map_option (\<lambda>(s, x). (s, case x of Returns y \<Rightarrow> Returns () | Throws e \<Rightarrow> Throws e)) r"

definition returned :: "'a state option \<Rightarrow> ('a state \<times> unit outcome) option" where
  "returned r = map_option (\<lambda>s. (s, Returns ())) r"

fun call :: "nat \<Rightarrow> 'a state \<Rightarrow> nat \<Rightarrow> 'a operation \<Rightarrow> ('a state \<times> unit outcome) option" where
  "call NodeMaxSize s this (Emplace pos args) = forget (emplace NodeMaxSize s this pos args)"
| "call NodeMaxSize s this (Insert pos val) = forget (insert' NodeMaxSize s this pos val)"
| "call NodeMaxSize s this (Emplace_back args) = emplace_back NodeMaxSize s this args"
| "call NodeMaxSize s this (Push_back val) = push_back NodeMaxSize s this val"
| "call NodeMaxSize s this (Push_front val) = push_front NodeMaxSize s this val"
| "call NodeMaxSize s this (Erase first last') = returned (map_option fst (erase s this first last'))"
| "call NodeMaxSize s this (Erase_at pos) = returned (map_option fst (erase1 s this pos))"
| "call NodeMaxSize s this Pop_front = returned (pop_front s this)"
| "call NodeMaxSize s this Pop_back = returned (pop_back s this)"
| "call NodeMaxSize s this Clear = returned (clear s this)"

text \<open>
  The precondition of a call: an insertion position is an element or \<^verbatim>\<open>end()\<close>, an erased
  range is empty or valid, an erased position denotes an element.
\<close>

fun valid_call :: "'a state \<Rightarrow> nat list \<Rightarrow> 'a operation \<Rightarrow> bool" where
  "valid_call s as (Emplace pos args) = valid_pos s as pos"
| "valid_call s as (Insert pos val) = valid_pos s as pos"
| "valid_call s as (Erase first last') = (iter_eq first last' \<or> valid_range s as first last')"
| "valid_call s as (Erase_at pos) = valid_iter s as pos"
| "valid_call s as _ = True"

text \<open>A container of two elements in one node of four slots, for the examples below.\<close>

definition two_elements :: "int state" where
  "two_elements =
     \<lparr>heap = [Some \<lparr>count = 2, next' = None, prev = None, data = [Obj 7, Obj 8, Raw, Raw]\<rparr>],
      lists = (\<lambda>_. default_list)(0 := \<lparr>head = Some 0, tail = Some 0, total_size = 2\<rparr>)\<rparr>"

text \<open>The same container after its first element has been erased.\<close>

definition one_element :: "int state" where
  "one_element =
     \<lparr>heap = [Some \<lparr>count = 1, next' = None, prev = None, data = [Obj 8, Raw, Raw, Raw]\<rparr>],
      lists = (\<lambda>_. default_list)(0 := \<lparr>head = Some 0, tail = Some 0, total_size = 1\<rparr>)\<rparr>"

text \<open>
  The state after \<^verbatim>\<open>unrolled_list<int, 4> a; a.push_back(x)\<close> where the constructor of the
  element throws: the head node that \<^verbatim>\<open>emplace\<close> created stays linked, with no element.
\<close>

definition thrown :: "int state" where
  "thrown =
     \<lparr>heap = [Some \<lparr>count = 0, next' = None, prev = None, data = [Raw, Raw, Raw, Raw]\<rparr>],
      lists = (\<lambda>_. default_list)(0 := \<lparr>head = Some 0, tail = Some 0, total_size = 0\<rparr>)\<rparr>"

declare iterate.simps [code]

declare copy_nodes.simps [code]

section \<open>Termination of the node-freeing loops\<close>

lemma filter_upd_len:
  "i < length xs \<Longrightarrow> length (filter P (xs[i := y])) + (if P (xs ! i) then 1 else 0)
     = length (filter P xs) + (if P y then 1 else 0)"
proof -
  assume i: "i < length xs"
  have a: "xs = take i xs @ xs ! i # drop (Suc i) xs" using i by (rule id_take_nth_drop)
  have b: "xs[i := y] = take i xs @ y # drop (Suc i) xs" using i by (rule upd_conv_take_nth_drop)
  have "length (filter P xs) = length (filter P (take i xs)) + (if P (xs ! i) then 1 else 0)
     + length (filter P (drop (Suc i) xs))" by (subst a) simp
  moreover have "length (filter P (xs[i := y])) = length (filter P (take i xs)) + (if P y then 1 else 0)
     + length (filter P (drop (Suc i) xs))" by (subst b) simp
  ultimately show ?thesis by simp
qed

lemma live_nodes_set_node:
  "node_at s p = Some n \<Longrightarrow> live_nodes (set_node s p m) = live_nodes s"
  using filter_upd_len[of p "heap s" "\<lambda>x. x \<noteq> None" "Some m"]
  by (auto simp: live_nodes_def set_node_def node_at_def split: if_splits)

lemma live_nodes_upd_node:
  "upd_node s p f = Some s' \<Longrightarrow> live_nodes s' = live_nodes s"
  by (auto simp: upd_node_def live_nodes_set_node split: option.splits)

lemma live_nodes_set_list [simp]: "live_nodes (set_list s this c) = live_nodes s"
  by (simp add: live_nodes_def set_list_def)

lemma live_nodes_destroy_node:
  "destroy_node s p = Some s' \<Longrightarrow> Suc (live_nodes s') = live_nodes s"
  using filter_upd_len[of p "heap s" "\<lambda>x. x \<noteq> None" "None"]
  by (auto simp: live_nodes_def destroy_node_def node_at_def split: if_splits option.splits)

lemma live_nodes_remove_node:
  "remove_node s this p = Some (s', it) \<Longrightarrow> live_nodes s' < live_nodes s"
  by (auto simp: remove_node_def Let_def split: if_splits Option.bind_splits
      dest!: live_nodes_destroy_node live_nodes_upd_node)

termination erase_between
  apply (relation "measure (\<lambda>(s, this, cur, end_node, erasedCount). live_nodes s)")
   apply simp
  apply (auto dest!: live_nodes_remove_node simp: live_nodes_set_node)
  done

declare erase_between.simps [simp del]

termination clear_loop
  apply (relation "measure (\<lambda>(s, cur). live_nodes s)")
   apply simp
  apply (auto dest!: live_nodes_destroy_node)
  done

declare clear_loop.simps [simp del]

section \<open>The heap and the slot loops\<close>

lemma node_at_set_node:
  "node_at (set_node s p n) q = (if q = p \<and> p < length (heap s) then Some n else node_at s q)"
  by (auto simp: node_at_def set_node_def)

lemma node_at_set_node_same: "node_at s p = Some m \<Longrightarrow> node_at (set_node s p n) p = Some n"
  by (auto simp: node_at_def set_node_def split: if_splits)

lemma node_at_set_node_other: "q \<noteq> p \<Longrightarrow> node_at (set_node s p n) q = node_at s q"
  by (auto simp: node_at_def set_node_def)

lemma node_at_set_list [simp]: "node_at (set_list s t c) q = node_at s q"
  by (simp add: node_at_def set_list_def)

lemma lists_set_node [simp]: "lists (set_node s p n) = lists s"
  by (simp add: set_node_def)

lemma lists_set_list [simp]: "lists (set_list s t c) = (lists s)(t := c)"
  by (simp add: set_list_def)

lemma heap_set_list [simp]: "heap (set_list s t c) = heap s"
  by (simp add: set_list_def)

lemma upd_node_Some:
  "upd_node s p f = Some s' \<longleftrightarrow> (\<exists>n. node_at s p = Some n \<and> s' = set_node s p (f n))"
  by (auto simp: upd_node_def split: option.splits)

lemma destroy_node_Some:
  "destroy_node s p = Some s' \<Longrightarrow> \<exists>n. node_at s p = Some n \<and> s' = s\<lparr>heap := (heap s)[p := None]\<rparr>"
  by (auto simp: destroy_node_def split: option.splits)

lemma node_at_free:
  "node_at (s\<lparr>heap := (heap s)[p := None]\<rparr>) q = (if q = p then None else node_at s q)"
  by (auto simp: node_at_def)

lemma lists_free [simp]: "lists (s\<lparr>heap := h\<rparr>) = lists s"
  by simp

lemma node_at_create:
  "node_at (fst (create_node N s)) q =
     (if q = length (heap s)
      then Some \<lparr>count = 0, next' = None, prev = None, data = replicate N Raw\<rparr>
      else node_at s q)"
  by (auto simp: node_at_def create_node_def nth_append)

lemma create_node_simps [simp]:
  "snd (create_node N s) = length (heap s)"
  "lists (fst (create_node N s)) = lists s"
  by (simp_all add: create_node_def)

lemma node_at_fresh: "node_at s (length (heap s)) = None"
  by (simp add: node_at_def)

lemma node_at_lt: "node_at s a = Some n \<Longrightarrow> a < length (heap s)"
  by (auto simp: node_at_def split: if_splits)



lemma dseg_links_cong:
  "(\<And>a. a \<in> set as \<Longrightarrow> links_at s' a = links_at s a) \<Longrightarrow> dseg s' pr p as q = dseg s pr p as q"
proof (induction as arbitrary: pr p)
  case Nil
  then show ?case by simp
next
  case (Cons a as)
  have l: "links_at s' a = links_at s a" using Cons.prems by simp
  have ih: "\<And>pr p. dseg s' pr p as q = dseg s pr p as q"
    using Cons.IH Cons.prems by simp
  show ?case using l
    by (cases "node_at s a"; cases "node_at s' a") (auto simp: links_at_def ih)
qed

lemma dseg_append:
  "dseg s pr p (as @ bs) q \<longleftrightarrow>
     (\<exists>m. dseg s pr p as m \<and> dseg s (if as = [] then pr else Some (last as)) m bs q)"
proof (induction as arbitrary: pr p)
  case Nil
  then show ?case by simp
next
  case (Cons a as)
  show ?case
    by (cases "node_at s a") (auto simp: Cons.IH)
qed

lemma dseg_nodes_live: "dseg s pr p as q \<Longrightarrow> a \<in> set as \<Longrightarrow> \<exists>n. node_at s a = Some n"
  by (induction as arbitrary: pr p) (auto split: option.splits)

lemma dseg_start: "dseg s pr p as q \<Longrightarrow> p = (if as = [] then q else Some (hd as))"
  by (cases as) auto

lemma list_all_take_nth:
  "c \<le> length d \<Longrightarrow> list_all P (take c d) \<longleftrightarrow> (\<forall>k<c. P (d ! k))"
  by (auto simp: list_all_length)

lemma is_obj_conv: "is_obj x \<longleftrightarrow> (\<exists>v. x = Obj v)"
  by (cases x) auto

lemma destroy_Some:
  "i < length d \<Longrightarrow> d ! i \<noteq> Raw \<Longrightarrow> destroy d i = Some (d[i := Raw])"
  by (cases "d ! i") (simp_all add: destroy_def)

lemma destroy_Raw: "d ! i = Raw \<Longrightarrow> destroy d i = None"
  by (simp add: destroy_def)

lemma destroy_loop_spec:
  "to \<le> length d \<Longrightarrow> (\<forall>k. i \<le> k \<and> k < to \<longrightarrow> d ! k \<noteq> Raw) \<Longrightarrow>
   \<exists>d'. destroy_loop d i to ec = Some (d', ec + (to - i)) \<and> length d' = length d \<and>
        (\<forall>k. k < i \<or> to \<le> k \<longrightarrow> d' ! k = d ! k) \<and>
        (\<forall>k. i \<le> k \<and> k < to \<longrightarrow> d' ! k = Raw)"
proof (induction d i to ec rule: destroy_loop.induct)
  case (1 d i to ec)
  show ?case
  proof (cases "i < to")
    case False
    then have "destroy_loop d i to ec = Some (d, ec)" by (subst destroy_loop.simps) simp
    then show ?thesis using False by auto
  next
    case True
    then have il: "i < length d" using "1.prems" by simp
    have "d ! i \<noteq> Raw" using True "1.prems"(2) by simp
    then have dd: "destroy d i = Some (d[i := Raw])" using il by (rule destroy_Some[rotated])
    have nr: "\<forall>k. i + 1 \<le> k \<and> k < to \<longrightarrow> d[i := Raw] ! k \<noteq> Raw"
      using "1.prems"(2) by simp
    from "1.IH"[OF True dd] "1.prems"(1) nr
    obtain d' where d': "destroy_loop (d[i := Raw]) (i + 1) to (ec + 1) = Some (d', ec + 1 + (to - (i + 1)))"
      "length d' = length d" "\<forall>k. k < i + 1 \<or> to \<le> k \<longrightarrow> d' ! k = d[i := Raw] ! k"
      "\<forall>k. i + 1 \<le> k \<and> k < to \<longrightarrow> d' ! k = Raw"
      by auto
    have "destroy_loop d i to ec = Some (d', ec + (to - i))"
      using True dd d'(1) by (subst destroy_loop.simps) simp
    moreover have "\<forall>k. k < i \<or> to \<le> k \<longrightarrow> d' ! k = d ! k"
      using d'(3) True by auto
    moreover have "d' ! i = Raw" using d'(3) il by simp
    then have "\<forall>k. i \<le> k \<and> k < to \<longrightarrow> d' ! k = Raw"
      using d'(4) by (metis Suc_eq_plus1 Suc_leI le_neq_implies_less)
    ultimately show ?thesis using d'(2) by blast
  qed
qed

lemma normalize_loop_spec:
  "0 < shift \<Longrightarrow> shift \<le> i \<Longrightarrow> cnt \<le> length d \<Longrightarrow>
   (\<forall>k. i \<le> k \<and> k < cnt \<longrightarrow> is_obj (d ! k)) \<Longrightarrow>
   \<exists>d'. normalize_loop d i cnt shift = Some d' \<and> length d' = length d \<and>
        (\<forall>k. k < i - shift \<longrightarrow> d' ! k = d ! k) \<and>
        (\<forall>k. i - shift \<le> k \<and> k + shift < cnt \<longrightarrow> d' ! k = d ! (k + shift))"
proof (induction d i cnt shift rule: normalize_loop.induct)
  case (1 d i cnt shift)
  show ?case
  proof (cases "i < cnt")
    case False
    then have "normalize_loop d i cnt shift = Some d" by (subst normalize_loop.simps) simp
    moreover have "\<forall>k. i - shift \<le> k \<and> k + shift < cnt \<longrightarrow> d ! k = d ! (k + shift)"
      using False "1.prems" by auto
    ultimately show ?thesis by simp
  next
    case True
    then have il: "i < length d" using "1.prems" by simp
    from "1.prems" True obtain v where v: "d ! i = Obj v" by (auto simp: is_obj_conv)
    let ?d1 = "d[i := Moved_from]"
    let ?d2 = "?d1[i - shift := Obj v]"
    let ?d3 = "?d2[i := Raw]"
    have m: "move_out d i = Some (v, ?d1)" using il v by (simp add: move_out_def)
    have c: "construct ?d1 (size_minus i shift) v = Some ?d2"
      using il "1.prems" by (simp add: construct_def size_minus_def)
    have d2i: "?d2 ! i = Moved_from" using il "1.prems" by (simp add: nth_list_update)
    have de: "destroy ?d2 i = Some ?d3" using il d2i by (intro destroy_Some) simp_all
    have pre: "\<forall>k. i + 1 \<le> k \<and> k < cnt \<longrightarrow> is_obj (?d3 ! k)"
      using "1.prems" by auto
    from "1.IH"[OF True m refl c de] "1.prems" pre
    obtain d' where d': "normalize_loop ?d3 (i + 1) cnt shift = Some d'" "length d' = length d"
      "\<forall>k. k < i + 1 - shift \<longrightarrow> d' ! k = ?d3 ! k"
      "\<forall>k. i + 1 - shift \<le> k \<and> k + shift < cnt \<longrightarrow> d' ! k = ?d3 ! (k + shift)"
      by auto
    have r: "normalize_loop d i cnt shift = Some d'"
      using True m c de d'(1) by (subst normalize_loop.simps) simp
    have a: "\<forall>k. k < i - shift \<longrightarrow> d' ! k = d ! k"
      using d'(3) "1.prems" by auto
    have b: "\<forall>k. i - shift \<le> k \<and> k + shift < cnt \<longrightarrow> d' ! k = d ! (k + shift)"
    proof (intro allI impI)
      fix k assume k: "i - shift \<le> k \<and> k + shift < cnt"
      show "d' ! k = d ! (k + shift)"
      proof (cases "k = i - shift")
        case True
        then have "d' ! k = ?d3 ! k" using d'(3) "1.prems" by auto
        also have "\<dots> = Obj v" using True il "1.prems" by auto
        finally show ?thesis using v True "1.prems" by simp
      next
        case False
        then have "i + 1 - shift \<le> k" using k "1.prems" by auto
        then have "d' ! k = ?d3 ! (k + shift)" using d'(4) k by auto
        also have "\<dots> = d ! (k + shift)" using False k "1.prems" by auto
        finally show ?thesis .
      qed
    qed
    show ?thesis using r d'(2) a b by blast
  qed
qed

lemma shift_loop_spec:
  "ptr \<le> i \<Longrightarrow> i < length d \<Longrightarrow> (\<forall>k. ptr \<le> k \<and> k < i \<longrightarrow> is_obj (d ! k)) \<Longrightarrow>
   \<exists>d'. shift_loop d cnt ptr i = Some d' \<and> length d' = length d \<and>
        (\<forall>k. k < ptr \<or> i < k \<longrightarrow> d' ! k = d ! k) \<and>
        (\<forall>k. ptr < k \<and> k \<le> i \<longrightarrow> d' ! k = d ! (k - 1))"
proof (induction d cnt ptr i rule: shift_loop.induct)
  case (1 d cnt ptr i)
  show ?case
  proof (cases "i > ptr")
    case False
    then have "shift_loop d cnt ptr i = Some d" by (subst shift_loop.simps) simp
    moreover have "\<forall>k. ptr < k \<and> k \<le> i \<longrightarrow> d ! k = d ! (k - 1)"
      using False by auto
    ultimately show ?thesis by simp
  next
    case True
    have "ptr \<le> i - 1 \<and> i - 1 < i" using True by auto
    then have "is_obj (d ! (i - 1))" using "1.prems" by blast
    then obtain v where v: "d ! (i - 1) = Obj v" by (auto simp: is_obj_conv)
    let ?d3 = "d[i - 1 := Raw, i := Obj v]"
    have il: "i - 1 < length d" "i < length d" "i - 1 \<noteq> i" "i - 1 < i" using "1.prems" True by auto
    have m: "move_out d (i - 1) = Some (v, d[i - 1 := Moved_from])"
      using il v by (simp add: move_out_def)
    have e1: "d[i - 1 := Moved_from, i := Obj v, i - 1 := Raw] = ?d3"
      using il by (simp add: list_update_swap)
    have e2: "d[i - 1 := Moved_from, i - 1 := Raw, i := Obj v] = ?d3"
      by simp
    have pre: "\<forall>k. ptr \<le> k \<and> k < i - 1 \<longrightarrow> is_obj (?d3 ! k)"
      using "1.prems" by auto
    have step: "shift_loop d cnt ptr i = shift_loop ?d3 cnt ptr (i - 1)"
      apply (subst shift_loop.simps)
      using True v il e1 e2 by (auto simp: move_out_def construct_def destroy_def)
    have ih: "\<exists>d'. shift_loop ?d3 cnt ptr (i - 1) = Some d' \<and> length d' = length ?d3 \<and>
        (\<forall>k. k < ptr \<or> i - 1 < k \<longrightarrow> d' ! k = ?d3 ! k) \<and>
        (\<forall>k. ptr < k \<and> k \<le> i - 1 \<longrightarrow> d' ! k = ?d3 ! (k - 1))"
    proof (cases "i = cnt")
      case True
      have c: "construct (d[i - 1 := Moved_from]) i v = Some (d[i - 1 := Moved_from, i := Obj v])"
        using il by (simp add: construct_def)
      have de: "destroy (d[i - 1 := Moved_from, i := Obj v]) (i - 1) = Some ?d3"
        using il e1 by (simp add: destroy_def)
      show ?thesis
        using "1.IH"(1)[OF \<open>i > ptr\<close> True m refl c de] "1.prems" \<open>i > ptr\<close> pre il
        by auto
    next
      case False
      have de: "destroy (d[i - 1 := Moved_from]) (i - 1) = Some (d[i - 1 := Raw])"
        using il by (simp add: destroy_def)
      have c: "construct (d[i - 1 := Raw]) i v = Some ?d3"
        using il by (simp add: construct_def)
      show ?thesis
        using "1.IH"(2)[OF \<open>i > ptr\<close> False m refl de c] "1.prems" \<open>i > ptr\<close> pre il
        by auto
    qed
    then obtain d' where d': "shift_loop ?d3 cnt ptr (i - 1) = Some d'" "length d' = length d"
        "\<forall>k. k < ptr \<or> i - 1 < k \<longrightarrow> d' ! k = ?d3 ! k"
        "\<forall>k. ptr < k \<and> k \<le> i - 1 \<longrightarrow> d' ! k = ?d3 ! (k - 1)"
      by auto
    have a: "\<forall>k. k < ptr \<or> i < k \<longrightarrow> d' ! k = d ! k"
      using d'(3) True by auto
    have b: "\<forall>k. ptr < k \<and> k \<le> i \<longrightarrow> d' ! k = d ! (k - 1)"
    proof (intro allI impI)
      fix k assume k: "ptr < k \<and> k \<le> i"
      show "d' ! k = d ! (k - 1)"
      proof (cases "k = i")
        case True
        then have "d' ! k = ?d3 ! i" using d'(3) il(4) by auto
        then show ?thesis using True v il by simp
      next
        case False
        then have "d' ! k = ?d3 ! (k - 1)" using d'(4) k by auto
        then show ?thesis using False k by auto
      qed
    qed
    show ?thesis using step d'(1,2) a b by auto
  qed
qed

lemma split_loop_spec:
  "startIndex + dataToMove \<le> length dn \<Longrightarrow> dataToMove \<le> length dnew \<Longrightarrow>
   (\<forall>k. startIndex + i \<le> k \<and> k < startIndex + dataToMove \<longrightarrow> is_obj (dn ! k)) \<Longrightarrow>
   \<exists>dn' dnew'. split_loop dn dnew i dataToMove startIndex = Some (dn', dnew') \<and>
        length dn' = length dn \<and> length dnew' = length dnew \<and>
        (\<forall>k. k < startIndex + i \<longrightarrow> dn' ! k = dn ! k) \<and>
        (\<forall>k. k < i \<longrightarrow> dnew' ! k = dnew ! k) \<and>
        (\<forall>k. i \<le> k \<and> k < dataToMove \<longrightarrow> dnew' ! k = dn ! (startIndex + k))"
proof (induction dn dnew i dataToMove startIndex rule: split_loop.induct)
  case (1 dn dnew i dataToMove startIndex)
  show ?case
  proof (cases "i < dataToMove")
    case False
    then have "split_loop dn dnew i dataToMove startIndex = Some (dn, dnew)" by (subst split_loop.simps) simp
    moreover have "\<forall>k. i \<le> k \<and> k < dataToMove \<longrightarrow> dnew ! k = dn ! (startIndex + k)"
      using False by auto
    ultimately show ?thesis by simp
  next
    case True
    from "1.prems" True obtain v where v: "dn ! (startIndex + i) = Obj v"
      by (auto simp: is_obj_conv)
    let ?dn1 = "dn[startIndex + i := Moved_from]"
    let ?dw1 = "dnew[i := Obj v]"
    have m: "move_out dn (startIndex + i) = Some (v, ?dn1)"
      using "1.prems" True v by (simp add: move_out_def)
    have c: "construct dnew i v = Some ?dw1"
      using "1.prems" True by (simp add: construct_def)
    have pre: "\<forall>k. startIndex + (i + 1) \<le> k \<and> k < startIndex + dataToMove \<longrightarrow> is_obj (?dn1 ! k)"
      using "1.prems" by auto
    from "1.IH"[OF True m refl c] "1.prems" pre
    obtain dn' dnew' where r:
      "split_loop ?dn1 ?dw1 (i + 1) dataToMove startIndex = Some (dn', dnew')"
      "length dn' = length dn" "length dnew' = length dnew"
      "\<forall>k. k < startIndex + (i + 1) \<longrightarrow> dn' ! k = ?dn1 ! k"
      "\<forall>k. k < i + 1 \<longrightarrow> dnew' ! k = ?dw1 ! k"
      "\<forall>k. i + 1 \<le> k \<and> k < dataToMove \<longrightarrow> dnew' ! k = ?dn1 ! (startIndex + k)"
      by auto
    have s: "split_loop dn dnew i dataToMove startIndex = Some (dn', dnew')"
      using True m c r(1) by (subst split_loop.simps) simp
    have a: "\<forall>k. k < startIndex + i \<longrightarrow> dn' ! k = dn ! k" using r(4) by auto
    have b: "\<forall>k. k < i \<longrightarrow> dnew' ! k = dnew ! k" using r(5) by auto
    have c': "\<forall>k. i \<le> k \<and> k < dataToMove \<longrightarrow> dnew' ! k = dn ! (startIndex + k)"
    proof (intro allI impI)
      fix k assume k: "i \<le> k \<and> k < dataToMove"
      show "dnew' ! k = dn ! (startIndex + k)"
      proof (cases "k = i")
        case True
        then show ?thesis using r(5) v "1.prems" k by auto
      next
        case False
        then show ?thesis using r(6) k by auto
      qed
    qed
    show ?thesis using s r(2,3) a b c' by blast
  qed
qed

section \<open>Chains under updates\<close>

lemma links_at_set_node:
  "links_at (set_node s p n) q =
     (if q = p \<and> p < length (heap s) then Some (next' n, prev n) else links_at s q)"
  by (simp add: links_at_def node_at_set_node)

lemma links_at_set_list [simp]: "links_at (set_list s t c) q = links_at s q"
  by (simp add: links_at_def)

lemma links_at_Some: "node_at s a = Some n \<Longrightarrow> links_at s a = Some (next' n, prev n)"
  by (simp add: links_at_def)

lemma dseg_Cons:
  "dseg s pr p (a # as) q \<longleftrightarrow>
     p = Some a \<and> (\<exists>nx. links_at s a = Some (nx, pr) \<and> dseg s (Some a) nx as q)"
  by (cases "node_at s a") (auto simp: links_at_def)

declare dseg.simps(2) [simp del]

declare dseg_Cons [simp]

lemma dseg_set_list [simp]: "dseg (set_list s t c) pr p as q = dseg s pr p as q"
  by (rule dseg_links_cong) simp

lemma dseg_set_node_payload:
  "node_at s a = Some n \<Longrightarrow> next' n' = next' n \<Longrightarrow> prev n' = prev n \<Longrightarrow>
   dseg (set_node s a n') pr p as q = dseg s pr p as q"
  by (rule dseg_links_cong) (auto simp: links_at_def node_at_set_node)

lemma chain_set_node_payload:
  "node_at s a = Some n \<Longrightarrow> next' n' = next' n \<Longrightarrow> prev n' = prev n \<Longrightarrow>
   chain (set_node s a n') this as = chain s this as"
  by (simp add: chain_def dseg_set_node_payload)

lemma chain_set_total_size [simp]:
  "chain (set_list s this ((lists s this)\<lparr>total_size := k\<rparr>)) this as = chain s this as"
  by (simp add: chain_def)

lemma chain_live: "chain s this as \<Longrightarrow> a \<in> set as \<Longrightarrow> \<exists>n. node_at s a = Some n"
  by (auto simp: chain_def dest: dseg_nodes_live)

lemma count_at_set_node:
  "count_at (set_node s p n) q = (if q = p \<and> p < length (heap s) then count n else count_at s q)"
  by (simp add: count_at_def node_at_set_node)

lemma count_at_set_list [simp]: "count_at (set_list s t c) q = count_at s q"
  by (simp add: count_at_def)

lemma sum_list_map_same:
  "(\<And>b. b \<in> set as \<Longrightarrow> f' b = f b) \<Longrightarrow> sum_list (map f' as) = sum_list (map f as)"
  by (induction as) auto

lemma set_node_twice [simp]: "set_node (set_node s a x) a y = set_node s a y"
  by (simp add: set_node_def)

lemma sum_list_map_change:
  "distinct as \<Longrightarrow> a \<in> set as \<Longrightarrow> (\<And>b. b \<in> set as \<Longrightarrow> b \<noteq> a \<Longrightarrow> f' b = f b) \<Longrightarrow>
   sum_list (map f' as) + f a = sum_list (map f as) + (f' a :: nat)"
proof (induction as)
  case Nil
  then show ?case by simp
next
  case (Cons x as)
  show ?case
  proof (cases "x = a")
    case True
    then have "a \<notin> set as" using Cons.prems by simp
    then have "sum_list (map f' as) = sum_list (map f as)"
      using Cons.prems(3) by (intro sum_list_map_same) auto
    then show ?thesis using True by simp
  next
    case False
    then have "sum_list (map f' as) + f a = sum_list (map f as) + f' a"
      using Cons by auto
    moreover have "f' x = f x" using Cons.prems False by simp
    ultimately show ?thesis by simp
  qed
qed

lemma nodes_ok_iff:
  "nodes_ok lo N s as \<longleftrightarrow> (\<forall>a\<in>set as. \<exists>n. node_at s a = Some n \<and> node_ok lo N n)"
  by (auto simp: nodes_ok_def list_all_iff split: option.splits)

lemma node_ok_iff:
  "node_ok lo N n \<longleftrightarrow> lo \<le> count n \<and> count n \<le> N \<and> length (data n) = N \<and>
     (\<forall>k<count n. is_obj (data n ! k))"
  by (auto simp: node_ok_def list_all_take_nth)

text \<open>Insertion into a node with a free slot\<close>

lemma shift_and_construct_spec:
  assumes n: "node_at s a = Some n" and ok: "node_ok lo N n" and room: "count n < N"
    and ptr: "ptr \<le> count n"
  shows "\<exists>d. shift_and_construct s this a ptr (Builds v) =
           Some (set_list (set_node s a (n\<lparr>data := d, count := count n + 1\<rparr>)) this
                   ((lists s this)\<lparr>total_size := total_size (lists s this) + 1\<rparr>),
                 Returns \<lparr>current_node = Some a, index_in_node = ptr, parent = this\<rparr>)
         \<and> node_ok 1 N (n\<lparr>data := d, count := count n + 1\<rparr>)"
proof -
  from ok have len: "length (data n) = N" and objs: "\<forall>k<count n. is_obj (data n ! k)"
    by (auto simp: node_ok_iff)
  have "\<exists>d'. shift_loop (data n) (count n) ptr (count n) = Some d' \<and> length d' = length (data n) \<and>
        (\<forall>k. k < ptr \<or> count n < k \<longrightarrow> d' ! k = data n ! k) \<and>
        (\<forall>k. ptr < k \<and> k \<le> count n \<longrightarrow> d' ! k = data n ! (k - 1))"
    using ptr room len objs by (intro shift_loop_spec) auto
  then obtain d' where d': "shift_loop (data n) (count n) ptr (count n) = Some d'"
    "length d' = N" "\<forall>k. k < ptr \<or> count n < k \<longrightarrow> d' ! k = data n ! k"
    "\<forall>k. ptr < k \<and> k \<le> count n \<longrightarrow> d' ! k = data n ! (k - 1)"
    using len by auto
  let ?d = "d'[ptr := Obj v]"
  have a_lt: "a < length (heap s)" using n by (rule node_at_lt)
  have run: "shift_and_construct s this a ptr (Builds v) =
           Some (set_list (set_node s a (n\<lparr>data := ?d, count := count n + 1\<rparr>)) this
                   ((lists s this)\<lparr>total_size := total_size (lists s this) + 1\<rparr>),
                 Returns \<lparr>current_node = Some a, index_in_node = ptr, parent = this\<rparr>)"
    using n d'(1,2) ptr room
    by (simp add: shift_and_construct_def Let_def)
  have objs': "\<forall>k<count n + 1. is_obj (?d ! k)"
  proof (intro allI impI)
    fix k assume k: "k < count n + 1"
    consider "k < ptr" | "k = ptr" | "ptr < k" by linarith
    then show "is_obj (?d ! k)"
    proof cases
      case 1
      then show ?thesis using d'(3) objs ptr by auto
    next
      case 2
      then show ?thesis using d'(2) ptr room by auto
    next
      case 3
      then have "?d ! k = data n ! (k - 1)" using d'(4) k by auto
      then show ?thesis using objs k 3 by auto
    qed
  qed
  have "node_ok 1 N (n\<lparr>data := ?d, count := count n + 1\<rparr>)"
    using objs' room d'(2) by (auto simp: node_ok_iff)
  then show ?thesis using run by blast
qed

text \<open>The invariant under an update of one node's payload\<close>

lemma wf_payload_update:
  assumes ch: "chain s this as" and oks: "nodes_ok lo N s as" and a: "a \<in> set as"
    and n: "node_at s a = Some n" and n': "next' n' = next' n" "prev n' = prev n"
    and ok': "node_ok lo' N n'" and lo: "lo' \<le> lo"
  shows "chain (set_node s a n') this as" "nodes_ok lo' N (set_node s a n') as"
    "sum_list (map (count_at (set_node s a n')) as) + count n
       = sum_list (map (count_at s) as) + count n'"
proof -
  show "chain (set_node s a n') this as" using ch n n' by (simp add: chain_set_node_payload)
  have a_lt: "a < length (heap s)" using n by (rule node_at_lt)
  show "nodes_ok lo' N (set_node s a n') as"
    using oks ok' lo a_lt by (auto simp: nodes_ok_iff node_at_set_node node_ok_iff)
  have "distinct as" using ch by (simp add: chain_def)
  from sum_list_map_change[OF this a, of "count_at (set_node s a n')" "count_at s"]
  show "sum_list (map (count_at (set_node s a n')) as) + count n
       = sum_list (map (count_at s) as) + count n'"
    using n a_lt by (simp add: count_at_set_node) (simp add: count_at_def)
qed

section \<open>Insertion keeps the invariant\<close>

lemma upd_node_eq: "node_at s p = Some n \<Longrightarrow> upd_node s p f = Some (set_node s p (f n))"
  by (simp add: upd_node_def)

lemma length_heap_set_node [simp]: "length (heap (set_node s p n)) = length (heap s)"
  by (simp add: set_node_def)

lemma length_heap_create [simp]: "length (heap (fst (create_node N s))) = Suc (length (heap s))"
  by (simp add: create_node_def)

text \<open>What the split computes.\<close>

lemma split_node_run:
  assumes n: "node_at s a = Some n" and full: "count n = N" and len: "length (data n) = N"
    and objs: "\<forall>k<N. is_obj (data n ! k)"
    and nx: "next' n = None \<or> (\<exists>q nq. next' n = Some q \<and> node_at s q = Some nq \<and> q \<noteq> a)"
  shows "\<exists>s' dn dnew. split_node N s this a ptr =
            Some (s', if ptr > N - N div 2 then (length (heap s), ptr - (N - N div 2)) else (a, ptr))
         \<and> length (heap s') = Suc (length (heap s))
         \<and> node_at s' a = Some (n\<lparr>data := dn, count := N - N div 2, next' := Some (length (heap s))\<rparr>)
         \<and> node_at s' (length (heap s)) =
              Some \<lparr>count = N div 2, next' = next' n, prev = Some a, data = dnew\<rparr>
         \<and> (\<forall>x. x \<noteq> a \<and> x \<noteq> length (heap s) \<longrightarrow>
               node_at s' x = (if next' n = Some x
                               then map_option (\<lambda>m. m\<lparr>prev := Some (length (heap s))\<rparr>) (node_at s x)
                               else node_at s x))
         \<and> lists s' = (lists s)(this := (lists s this)
               \<lparr>tail := (if Some a = tail (lists s this) then Some (length (heap s))
                          else tail (lists s this))\<rparr>)
         \<and> length dn = N \<and> length dnew = N
         \<and> (\<forall>k < N - N div 2. dn ! k = data n ! k)
         \<and> (\<forall>k < N div 2. dnew ! k = data n ! (N - N div 2 + k))"
proof -
  let ?new = "length (heap s)"
  let ?s1 = "fst (create_node N s)"
  let ?dm = "N div 2"
  let ?si = "N - N div 2"
  have a_lt: "a < ?new" using n by (rule node_at_lt)
  then have a_ne: "a \<noteq> ?new" by simp
  have n1: "node_at ?s1 a = Some n" using n a_ne by (simp add: node_at_create)
  have nn1: "node_at ?s1 ?new = Some \<lparr>count = 0, next' = None, prev = None, data = replicate N Raw\<rparr>"
    by (simp add: node_at_create)
  have "\<exists>dn' dnew'. split_loop (data n) (replicate N Raw) 0 ?dm ?si = Some (dn', dnew') \<and>
        length dn' = length (data n) \<and> length dnew' = length (replicate N Raw :: 'a slot list) \<and>
        (\<forall>k. k < ?si + 0 \<longrightarrow> dn' ! k = data n ! k) \<and>
        (\<forall>k. k < 0 \<longrightarrow> dnew' ! k = (replicate N Raw :: 'a slot list) ! k) \<and>
        (\<forall>k. 0 \<le> k \<and> k < ?dm \<longrightarrow> dnew' ! k = data n ! (?si + k))"
    using len objs by (intro split_loop_spec) auto
  then obtain dn dnew where sl: "split_loop (data n) (replicate N Raw) 0 ?dm ?si = Some (dn, dnew)"
    and ldn: "length dn = N" and ldnew: "length dnew = N"
    and dn: "\<forall>k < ?si. dn ! k = data n ! k"
    and dnew: "\<forall>k < ?dm. dnew ! k = data n ! (?si + k)"
    using len by auto
  let ?na = "n\<lparr>data := dn, count := ?si\<rparr>"
  let ?s2 = "set_node ?s1 a ?na"
  have u2: "upd_node ?s1 a (\<lambda>n. n\<lparr>data := dn, count := ?si\<rparr>) = Some ?s2"
    using n1 by (simp add: upd_node_eq)
  have n2: "node_at ?s2 a = Some ?na" using a_lt by (simp add: node_at_set_node)
  let ?nn = "\<lparr>count = ?dm, next' = next' n, prev = Some a, data = dnew\<rparr>"
  let ?s3 = "set_node ?s2 ?new ?nn"
  have nn2: "node_at ?s2 ?new = Some \<lparr>count = 0, next' = None, prev = None, data = replicate N Raw\<rparr>"
    using nn1 a_ne by (simp add: node_at_set_node)
  have u3: "upd_node ?s2 ?new
      (\<lambda>m. m\<lparr>data := dnew, count := ?dm, next' := next' ?na, prev := Some a\<rparr>) = Some ?s3"
    using nn2 by (simp add: upd_node_eq)
  have n3: "node_at ?s3 a = Some ?na" using n2 a_ne by (simp add: node_at_set_node)
  let ?na4 = "n\<lparr>data := dn, count := ?si, next' := Some ?new\<rparr>"
  let ?s4 = "set_node ?s3 a ?na4"
  have u4: "upd_node ?s3 a (\<lambda>n. n\<lparr>next' := Some ?new\<rparr>) = Some ?s4"
    using n3 by (simp add: upd_node_eq)
  have nn4: "node_at ?s4 ?new = Some ?nn" using a_ne by (simp add: node_at_set_node)
  have n4: "node_at ?s4 a = Some ?na4" using a_lt by (simp add: node_at_set_node)
  have o4: "\<And>x. x \<noteq> a \<Longrightarrow> x \<noteq> ?new \<Longrightarrow> node_at ?s4 x = node_at s x"
    by (simp add: node_at_set_node node_at_create)
  have l4: "lists ?s4 = lists s" by simp
  have h4: "length (heap ?s4) = Suc ?new" by simp
  define s5 where "s5 = (case next' n of None \<Rightarrow> ?s4
                         | Some q \<Rightarrow> set_node ?s4 q ((the (node_at s q))\<lparr>prev := Some ?new\<rparr>))"
  have u5: "(case next' n of None \<Rightarrow> Some ?s4
             | Some q \<Rightarrow> upd_node ?s4 q (\<lambda>m. m\<lparr>prev := Some ?new\<rparr>)) = Some s5"
  proof (cases "next' n")
    case None
    then show ?thesis by (simp add: s5_def)
  next
    case (Some q)
    with nx obtain nq where nq: "node_at s q = Some nq" "q \<noteq> a" by auto
    then have "q \<noteq> ?new" using node_at_lt by fastforce
    then have "node_at ?s4 q = Some nq" using nq o4 by simp
    then show ?thesis using Some nq by (simp add: s5_def upd_node_eq)
  qed
  have n5: "node_at s5 a = Some ?na4 \<and> node_at s5 ?new = Some ?nn"
  proof (cases "next' n")
    case None
    then show ?thesis using n4 nn4 by (simp add: s5_def)
  next
    case (Some q)
    with nx obtain nq where nq: "node_at s q = Some nq" "q \<noteq> a" by auto
    then have "q \<noteq> ?new" using node_at_lt by fastforce
    then show ?thesis using Some nq n4 nn4 by (simp add: s5_def node_at_set_node_other)
  qed
  have o5: "\<forall>x. x \<noteq> a \<and> x \<noteq> ?new \<longrightarrow>
               node_at s5 x = (if next' n = Some x
                               then map_option (\<lambda>m. m\<lparr>prev := Some ?new\<rparr>) (node_at s x)
                               else node_at s x)"
  proof (cases "next' n")
    case None
    then show ?thesis using o4 by (simp add: s5_def)
  next
    case (Some q)
    with nx obtain nq where nq: "node_at s q = Some nq" "q \<noteq> a" by auto
    then have "q < ?new" using node_at_lt by fastforce
    then show ?thesis using Some nq o4 by (auto simp: s5_def node_at_set_node)
  qed
  have l5: "lists s5 = lists s" by (simp add: s5_def split: option.splits)
  have h5: "length (heap s5) = Suc ?new" by (simp add: s5_def split: option.splits)
  define s6 where "s6 = (if Some a = tail (lists s5 this)
                  then set_list s5 this ((lists s5 this)\<lparr>tail := Some ?new\<rparr>)
                  else s5)"
  have n6: "node_at s6 a = Some ?na4" "node_at s6 ?new = Some ?nn"
    using n5 by (auto simp: s6_def)
  have l5t: "tail (lists s5 this) = tail (lists s this)" using l5 by simp
  have o6: "\<forall>x. x \<noteq> a \<and> x \<noteq> ?new \<longrightarrow>
               node_at s6 x = (if next' n = Some x
                               then map_option (\<lambda>m. m\<lparr>prev := Some ?new\<rparr>) (node_at s x)
                               else node_at s x)"
    using o5 by (simp add: s6_def)
  have l6: "lists s6 = (lists s)(this := (lists s this)
               \<lparr>tail := (if Some a = tail (lists s this) then Some ?new
                          else tail (lists s this))\<rparr>)"
    using l5 by (auto simp: s6_def)
  have h6: "length (heap s6) = Suc ?new" using h5 by (simp add: s6_def)
  have run: "split_node N s this a ptr =
            Some (s6, if ptr > ?si then (?new, ptr - ?si) else (a, ptr))"
    unfolding split_node_def
    apply (simp only: Let_def split_beta create_node_simps)
    apply (simp only: n1 nn1 sl u2 n2 u3 u4 nn4 bind.bind_lunit option.sel Node.simps
        prod.case fst_conv snd_conv)
    apply (simp only: u5 bind.bind_lunit)
    using n5 apply (simp add: s6_def size_minus_def)
    done
  show ?thesis
    using run h6 n6 o6 l6 ldn ldnew dn dnew by blast
qed

lemma chain_lt: "chain s this as \<Longrightarrow> a \<in> set as \<Longrightarrow> a < length (heap s)"
  using chain_live node_at_lt by blast

lemma dseg_mid:
  "dseg s pr p (pre @ a # post) q \<longleftrightarrow>
     dseg s pr p pre (Some a) \<and>
     (\<exists>nx. links_at s a = Some (nx, if pre = [] then pr else Some (last pre)) \<and>
           dseg s (Some a) nx post q)"
  by (auto simp: dseg_append dseg_Cons)

lemma dseg_post_start:
  "dseg s pr p post None \<Longrightarrow> p = None \<and> post = [] \<or> (\<exists>q post'. p = Some q \<and> post = q # post')"
  by (cases post) (auto simp: dseg_Cons)

lemma split_node_wf:
  assumes ch: "chain s this (pre @ a # post)"
    and oks: "nodes_ok lo N s (pre @ a # post)"
    and n: "node_at s a = Some n" and full: "count n = N"
  shows "\<exists>s'. split_node N s this a ptr =
            Some (s', if ptr > N - N div 2 then (length (heap s), ptr - (N - N div 2)) else (a, ptr))
         \<and> chain s' this (pre @ a # length (heap s) # post)
         \<and> nodes_ok (if 2 \<le> N then min lo 1 else 0) N s' (pre @ a # length (heap s) # post)
         \<and> sum_list (map (count_at s') (pre @ a # length (heap s) # post))
             = sum_list (map (count_at s) (pre @ a # post))
         \<and> total_size (lists s' this) = total_size (lists s this)
         \<and> count_at s' a = N - N div 2 \<and> count_at s' (length (heap s)) = N div 2
         \<and> (\<forall>x\<in>set (pre @ post). count_at s' x = count_at s x)
         \<and> length (heap s') = Suc (length (heap s))"
proof -
  let ?new = "length (heap s)"
  let ?as = "pre @ a # post"
  from ch have ds: "dseg s None (head (lists s this)) ?as None"
    and tl: "tail (lists s this) = Some (last ?as)" and dist: "distinct ?as"
    by (auto simp: chain_def)
  from ds obtain nx where pre: "dseg s None (head (lists s this)) pre (Some a)"
    and la: "links_at s a = Some (nx, if pre = [] then None else Some (last pre))"
    and post: "dseg s (Some a) nx post None"
    by (auto simp: dseg_mid)
  from la n have nxn: "next' n = nx" and pvn: "prev n = (if pre = [] then None else Some (last pre))"
    by (auto simp: links_at_def)
  have live: "\<And>x. x \<in> set ?as \<Longrightarrow> \<exists>m. node_at s x = Some m"
    using ch chain_live by blast
  have lt: "\<And>x. x \<in> set ?as \<Longrightarrow> x < ?new"
    using ch chain_lt by blast
  have new_notin: "?new \<notin> set ?as" using lt by blast
  from dseg_post_start[OF post]
  have nx_cases: "nx = None \<and> post = [] \<or> (\<exists>q post'. nx = Some q \<and> post = q # post')" .
  have okn: "node_ok lo N n" using oks n by (auto simp: nodes_ok_iff)
  then have len: "length (data n) = N" and objs: "\<forall>k<N. is_obj (data n ! k)"
    using full by (auto simp: node_ok_iff)
  have nxc: "next' n = None \<or> (\<exists>q nq. next' n = Some q \<and> node_at s q = Some nq \<and> q \<noteq> a)"
    using nx_cases nxn dist live by auto
  from split_node_run[OF n full len objs nxc, of this ptr]
  obtain s' dn dnew where
    run: "split_node N s this a ptr =
            Some (s', if ptr > N - N div 2 then (?new, ptr - (N - N div 2)) else (a, ptr))"
    and hl: "length (heap s') = Suc ?new"
    and na: "node_at s' a = Some (n\<lparr>data := dn, count := N - N div 2, next' := Some ?new\<rparr>)"
    and nn: "node_at s' ?new = Some \<lparr>count = N div 2, next' = next' n, prev = Some a, data = dnew\<rparr>"
    and no: "\<forall>x. x \<noteq> a \<and> x \<noteq> ?new \<longrightarrow>
               node_at s' x = (if next' n = Some x
                               then map_option (\<lambda>m. m\<lparr>prev := Some ?new\<rparr>) (node_at s x)
                               else node_at s x)"
    and ls: "lists s' = (lists s)(this := (lists s this)
               \<lparr>tail := (if Some a = tail (lists s this) then Some ?new
                          else tail (lists s this))\<rparr>)"
    and ldn: "length dn = N" and ldnew: "length dnew = N"
    and dn: "\<forall>k < N - N div 2. dn ! k = data n ! k"
    and dnew: "\<forall>k < N div 2. dnew ! k = data n ! (N - N div 2 + k)"
    by blast
  have la': "links_at s' a = Some (Some ?new, if pre = [] then None else Some (last pre))"
    using na pvn by (simp add: links_at_def)
  have ln': "links_at s' ?new = Some (nx, Some a)"
    using nn nxn by (simp add: links_at_def)
  have lo': "\<And>x. x \<in> set ?as \<Longrightarrow> x \<noteq> a \<Longrightarrow> nx \<noteq> Some x \<Longrightarrow> links_at s' x = links_at s x"
    using no nxn new_notin by (auto simp: links_at_def)
  have payload: "\<And>x. x \<in> set ?as \<Longrightarrow> x \<noteq> a \<Longrightarrow>
      map_option (\<lambda>m. (count m, data m)) (node_at s' x) = map_option (\<lambda>m. (count m, data m)) (node_at s x)"
    using no new_notin by (auto simp: option.map_comp comp_def)
  have hd_same: "head (lists s' this) = head (lists s this)" using ls by simp
  text \<open>the chain\<close>
  have pre': "dseg s' None (head (lists s' this)) pre (Some a)"
  proof -
    have "dseg s' None (head (lists s this)) pre (Some a) = dseg s None (head (lists s this)) pre (Some a)"
    proof (rule dseg_links_cong)
      fix x assume x: "x \<in> set pre"
      then have "x \<noteq> a" "nx \<noteq> Some x" using dist nx_cases by auto
      then show "links_at s' x = links_at s x" using lo' x by simp
    qed
    then show ?thesis using pre hd_same by simp
  qed
  have post': "dseg s' (Some ?new) nx post None"
  proof (cases post)
    case Nil
    then show ?thesis using nx_cases by simp
  next
    case (Cons q post')
    then have nxq: "nx = Some q" using nx_cases by simp
    from post Cons obtain nx2 where lq: "links_at s q = Some (nx2, Some a)"
      and rest: "dseg s (Some q) nx2 post' None"
      by (auto simp: dseg_Cons)
    have q_ne: "q \<noteq> a" "q \<noteq> ?new" "q \<notin> set post'" using dist Cons new_notin by auto
    have "node_at s' q = map_option (\<lambda>m. m\<lparr>prev := Some ?new\<rparr>) (node_at s q)"
      using no q_ne nxn nxq by simp
    then have lq': "links_at s' q = Some (nx2, Some ?new)"
      using lq by (auto simp: links_at_def)
    have "dseg s' (Some q) nx2 post' None = dseg s (Some q) nx2 post' None"
    proof (rule dseg_links_cong)
      fix x assume x: "x \<in> set post'"
      then have "x \<noteq> a" "nx \<noteq> Some x" "x \<in> set ?as" using dist Cons nxq by auto
      then show "links_at s' x = links_at s x" using lo' by simp
    qed
    then show ?thesis using Cons nxq lq' rest by (simp add: dseg_Cons)
  qed
  have ds': "dseg s' None (head (lists s' this)) (pre @ a # ?new # post) None"
    using pre' la' ln' post' by (simp add: dseg_mid dseg_Cons)
  have tl': "tail (lists s' this) = Some (last (pre @ a # ?new # post))"
  proof (cases "post = []")
    case True
    then show ?thesis using tl ls by simp
  next
    case False
    then have "last ?as = last post" by simp
    moreover have "last post \<noteq> a" using dist False by (metis distinct.simps(2) distinct_append last_in_set)
    ultimately show ?thesis using tl ls False by simp
  qed
  have dist': "distinct (pre @ a # ?new # post)" using dist new_notin by auto
  have ch': "chain s' this (pre @ a # ?new # post)"
    using ds' tl' dist' by (simp add: chain_def)
  text \<open>the nodes\<close>
  have cnt_o: "\<And>x. x \<in> set ?as \<Longrightarrow> x \<noteq> a \<Longrightarrow> count_at s' x = count_at s x"
  proof -
    fix x assume "x \<in> set ?as" "x \<noteq> a"
    from payload[OF this] show "count_at s' x = count_at s x"
      by (cases "node_at s x"; cases "node_at s' x") (auto simp: count_at_def)
  qed
  have ok_o: "\<And>x. x \<in> set ?as \<Longrightarrow> x \<noteq> a \<Longrightarrow> \<exists>m. node_at s' x = Some m \<and> node_ok lo N m"
  proof -
    fix x assume x: "x \<in> set ?as" "x \<noteq> a"
    then obtain m where m: "node_at s x = Some m" "node_ok lo N m"
      using oks by (auto simp: nodes_ok_iff)
    from payload[OF x] m obtain m' where "node_at s' x = Some m'" "count m' = count m" "data m' = data m"
      by (cases "node_at s' x") auto
    then show "\<exists>m. node_at s' x = Some m \<and> node_ok lo N m"
      using m by (auto simp: node_ok_iff)
  qed
  let ?lo = "if 2 \<le> N then min lo 1 else 0"
  have lo_le: "lo \<le> N" using okn full by (simp add: node_ok_iff)
  have ok_a: "node_ok ?lo N (n\<lparr>data := dn, count := N - N div 2, next' := Some ?new\<rparr>)"
    using ldn dn objs by (auto simp: node_ok_iff)
  have ok_n: "node_ok ?lo N \<lparr>count = N div 2, next' = next' n, prev = Some a, data = dnew\<rparr>"
    using ldnew dnew objs by (auto simp: node_ok_iff)
  have oks': "nodes_ok ?lo N s' (pre @ a # ?new # post)"
    unfolding nodes_ok_iff
  proof
    fix x assume x: "x \<in> set (pre @ a # ?new # post)"
    consider "x = a" | "x = ?new" | "x \<in> set ?as" "x \<noteq> a" using x by auto
    then show "\<exists>m. node_at s' x = Some m \<and> node_ok ?lo N m"
    proof cases
      case 1
      then show ?thesis using na ok_a by simp
    next
      case 2
      then show ?thesis using nn ok_n by simp
    next
      case 3
      from ok_o[OF this] obtain m where "node_at s' x = Some m" "node_ok lo N m" by blast
      then show ?thesis by (auto simp: node_ok_iff)
    qed
  qed
  have ca: "count_at s' a = N - N div 2" using na by (simp add: count_at_def)
  have cn: "count_at s' ?new = N div 2" using nn by (simp add: count_at_def)
  have "sum_list (map (count_at s') pre) = sum_list (map (count_at s) pre)"
    using cnt_o dist by (intro sum_list_map_same) auto
  moreover have "sum_list (map (count_at s') post) = sum_list (map (count_at s) post)"
    using cnt_o dist by (intro sum_list_map_same) auto
  moreover have "count_at s a = N" using n full by (simp add: count_at_def)
  ultimately have sum': "sum_list (map (count_at s') (pre @ a # ?new # post))
             = sum_list (map (count_at s) ?as)"
    using ca cn by simp
  have ts: "total_size (lists s' this) = total_size (lists s this)" using ls by simp
  have cnt_o': "\<forall>x\<in>set (pre @ post). count_at s' x = count_at s x"
    using cnt_o dist by auto
  show ?thesis using run ch' oks' sum' ts ca cn hl cnt_o' by blast
qed

lemma wf_listI:
  "chain s this as \<Longrightarrow> nodes_ok 1 N s as \<Longrightarrow>
   total_size (lists s this) = sum_list (map (count_at s) as) \<Longrightarrow> wf_list N s this as"
  by (simp add: wf_list_def)

lemma count_at_set_list_fun [simp]: "count_at (set_list s t c) = count_at s"
  by (rule ext) simp

lemma count_at_Some: "node_at s a = Some n \<Longrightarrow> count_at s a = count n"
  by (simp add: count_at_def)

text \<open>Insertion into a node of the chain that has a free slot.\<close>

lemma insert_wf:
  assumes ch: "chain s this as" and oks: "nodes_ok 0 N s as" and a: "a \<in> set as"
    and others: "\<forall>b\<in>set as. b \<noteq> a \<longrightarrow> 1 \<le> count_at s b"
    and ts: "total_size (lists s this) = sum_list (map (count_at s) as)"
    and room: "count_at s a < N" and ptr: "ptr \<le> count_at s a"
  shows "\<exists>s'. shift_and_construct s this a ptr (Builds v) =
           Some (s', Returns \<lparr>current_node = Some a, index_in_node = ptr, parent = this\<rparr>)
         \<and> wf_list N s' this as \<and> length (heap s') = length (heap s)"
proof -
  from oks a obtain n where n: "node_at s a = Some n" and okn: "node_ok 0 N n"
    by (auto simp: nodes_ok_iff)
  have cn: "count_at s a = count n" using n by (rule count_at_Some)
  from shift_and_construct_spec[OF n okn, of ptr this v] room ptr cn
  obtain d where run: "shift_and_construct s this a ptr (Builds v) =
           Some (set_list (set_node s a (n\<lparr>data := d, count := count n + 1\<rparr>)) this
                   ((lists s this)\<lparr>total_size := total_size (lists s this) + 1\<rparr>),
                 Returns \<lparr>current_node = Some a, index_in_node = ptr, parent = this\<rparr>)"
    and ok1: "node_ok 1 N (n\<lparr>data := d, count := count n + 1\<rparr>)"
    by auto
  let ?n' = "n\<lparr>data := d, count := count n + 1\<rparr>"
  let ?s1 = "set_node s a ?n'"
  let ?s' = "set_list ?s1 this ((lists s this)\<lparr>total_size := total_size (lists s this) + 1\<rparr>)"
  have ok0: "node_ok 0 N ?n'" using ok1 by (auto simp: node_ok_iff)
  from wf_payload_update[OF ch oks a n _ _ ok0]
  have ch1: "chain ?s1 this as" and oks1: "nodes_ok 0 N ?s1 as"
    and sum1: "sum_list (map (count_at ?s1) as) + count n = sum_list (map (count_at s) as) + count ?n'"
    by auto
  have a_lt: "a < length (heap s)" using n by (rule node_at_lt)
  have ch': "chain ?s' this as"
    using ch1 chain_set_total_size[of ?s1 this _ as] by simp
  have oks': "nodes_ok 1 N ?s' as"
    unfolding nodes_ok_iff
  proof
    fix x assume x: "x \<in> set as"
    show "\<exists>m. node_at ?s' x = Some m \<and> node_ok 1 N m"
    proof (cases "x = a")
      case True
      then show ?thesis using ok1 a_lt by (simp add: node_at_set_node)
    next
      case False
      then obtain m where m: "node_at s x = Some m" "node_ok 0 N m"
        using oks x by (auto simp: nodes_ok_iff)
      then have "1 \<le> count m" using others x False by (auto simp: count_at_def)
      then show ?thesis using m False by (auto simp: node_at_set_node node_ok_iff)
    qed
  qed
  have ts': "total_size (lists ?s' this) = sum_list (map (count_at ?s') as)"
    using sum1 ts by simp
  show ?thesis using run ch' oks' ts' by (auto intro!: wf_listI)
qed

text \<open>
  \<^verbatim>\<open>emplace_into_node_\<close> on a node of the chain; a full node needs
  \<^verbatim>\<open>NodeMaxSize >= 2\<close>.
\<close>

lemma emplace_into_node_wf:
  assumes N: "count_at s a = N \<longrightarrow> 2 \<le> N"
    and ch: "chain s this as" and oks: "nodes_ok 0 N s as" and a: "a \<in> set as"
    and others: "\<forall>b\<in>set as. b \<noteq> a \<longrightarrow> 1 \<le> count_at s b"
    and ts: "total_size (lists s this) = sum_list (map (count_at s) as)"
    and ptr: "ptr \<le> count_at s a"
  shows "\<exists>s' it as'. emplace_into_node N s this (Some a) ptr (Builds v) = Some (s', Returns it)
         \<and> wf_list N s' this as' \<and> length (heap s') \<le> Suc (length (heap s))
         \<and> (count_at s a < N \<longrightarrow> as' = as \<and> length (heap s') = length (heap s))
         \<and> (count_at s a = N \<longrightarrow> length (heap s') = Suc (length (heap s)) \<and>
              (\<exists>pre post. as = pre @ a # post \<and> as' = pre @ a # length (heap s) # post))"
proof -
  from oks a obtain n where n: "node_at s a = Some n" and okn: "node_ok 0 N n"
    by (auto simp: nodes_ok_iff)
  have cn: "count_at s a = count n" using n by (rule count_at_Some)
  show ?thesis
  proof (cases "count n = N")
    case False
    then have room: "count_at s a < N" using okn cn by (auto simp: node_ok_iff)
    from insert_wf[OF ch oks a others ts room ptr, of v]
    obtain s' where "shift_and_construct s this a ptr (Builds v) =
           Some (s', Returns \<lparr>current_node = Some a, index_in_node = ptr, parent = this\<rparr>)"
      "wf_list N s' this as" "length (heap s') = length (heap s)" by blast
    then show ?thesis using n False room
      by (auto simp: emplace_into_node_def)
  next
    case True
    then have N: "2 \<le> N" using N cn by simp
    from a obtain pre post where as: "as = pre @ a # post" by (auto dest: split_list)
    let ?new = "length (heap s)"
    let ?as' = "pre @ a # ?new # post"
    from split_node_wf[OF ch[unfolded as] oks[unfolded as] n True, of ptr]
    obtain s1 where
      run1: "split_node N s this a ptr =
            Some (s1, if ptr > N - N div 2 then (?new, ptr - (N - N div 2)) else (a, ptr))"
      and ch1: "chain s1 this ?as'"
      and oks1: "nodes_ok (if 2 \<le> N then min 0 1 else 0) N s1 ?as'"
      and sum1: "sum_list (map (count_at s1) ?as') = sum_list (map (count_at s) (pre @ a # post))"
      and ts1: "total_size (lists s1 this) = total_size (lists s this)"
      and ca: "count_at s1 a = N - N div 2" and cnew: "count_at s1 ?new = N div 2"
      and co: "\<forall>x\<in>set (pre @ post). count_at s1 x = count_at s x"
      and hl: "length (heap s1) = Suc ?new"
      by blast
    have oks1': "nodes_ok 0 N s1 ?as'" using oks1 N by simp
    have tsum1: "total_size (lists s1 this) = sum_list (map (count_at s1) ?as')"
      using ts1 sum1 ts as by simp
    have dist: "distinct ?as'" using ch1 by (simp add: chain_def)
    have half: "1 \<le> N div 2" "1 \<le> N - N div 2" "N div 2 < N" "N - N div 2 < N" using N by auto
    have ge1: "\<forall>b\<in>set ?as'. 1 \<le> count_at s1 b"
      using co others ca cnew half as dist by auto
    let ?node = "if ptr > N - N div 2 then ?new else a"
    let ?ptr = "if ptr > N - N div 2 then ptr - (N - N div 2) else ptr"
    have node_in: "?node \<in> set ?as'" by simp
    have room: "count_at s1 ?node < N" using ca cnew half by simp
    have ptrN: "ptr \<le> N" using ptr cn True by simp
    have ptr': "?ptr \<le> count_at s1 ?node" using ca cnew ptrN by auto
    have oth: "\<forall>b\<in>set ?as'. b \<noteq> ?node \<longrightarrow> 1 \<le> count_at s1 b" using ge1 by blast
    from insert_wf[OF ch1 oks1' node_in oth tsum1 room ptr', of v]
    obtain s' where run2: "shift_and_construct s1 this ?node ?ptr (Builds v) =
           Some (s', Returns \<lparr>current_node = Some ?node, index_in_node = ?ptr, parent = this\<rparr>)"
      and wf': "wf_list N s' this ?as'" and hl': "length (heap s') = length (heap s1)" by blast
    have "emplace_into_node N s this (Some a) ptr (Builds v) =
        Some (s', Returns \<lparr>current_node = Some ?node, index_in_node = ?ptr, parent = this\<rparr>)"
      using n True run1 run2 by (simp add: emplace_into_node_def split: if_splits)
    then show ?thesis using wf' hl hl' as True cn by auto
  qed
qed

lemma shift_loop_length: "shift_loop d cnt ptr i = Some d' \<Longrightarrow> length d' = length d"
proof (induction d cnt ptr i arbitrary: d' rule: shift_loop.induct)
  case (1 d cnt ptr i)
  show ?case
  proof (cases "i > ptr")
    case False
    then show ?thesis using "1.prems" by (subst (asm) shift_loop.simps) simp
  next
    case True
    show ?thesis
    proof (cases "i = cnt")
      case c: True
      from "1.prems" True c obtain v d1 d2 d3 where
        s: "move_out d (i - 1) = Some (v, d1)" "construct d1 i v = Some d2"
           "destroy d2 (i - 1) = Some d3" "shift_loop d3 cnt ptr (i - 1) = Some d'"
        by (subst (asm) shift_loop.simps) (auto split: Option.bind_splits)
      from "1.IH"(1)[OF True c s(1) refl s(2) s(3) s(4)] s(1,2,3)
      show ?thesis
        by (auto simp: move_out_def construct_def destroy_def split: if_splits slot.splits)
    next
      case c: False
      from "1.prems" True c obtain v d1 d2 d3 where
        s: "move_out d (i - 1) = Some (v, d1)" "destroy d1 (i - 1) = Some d2"
           "construct d2 i v = Some d3" "shift_loop d3 cnt ptr (i - 1) = Some d'"
        by (subst (asm) shift_loop.simps) (auto split: Option.bind_splits)
      from "1.IH"(2)[OF True c s(1) refl s(2) s(3) s(4)] s(1,2,3)
      show ?thesis
        by (auto simp: move_out_def construct_def destroy_def split: if_splits slot.splits)
    qed
  qed
qed

lemma shift_loop_overflow:
  "ptr < cnt \<Longrightarrow> length d \<le> cnt \<Longrightarrow> shift_loop d cnt ptr cnt = None"
  by (subst shift_loop.simps)
     (auto simp: move_out_def construct_def split: Option.bind_splits slot.splits if_splits)

lemma shift_and_construct_None:
  assumes n: "node_at s node = Some n"
    and bad: "length (data n) \<le> ptr \<or> (ptr < count n \<and> length (data n) \<le> count n)"
  shows "shift_and_construct s this node ptr args = None"
proof (cases "shift_loop (data n) (count n) ptr (count n)")
  case None
  then show ?thesis using n by (simp add: shift_and_construct_def)
next
  case (Some d)
  then have len: "length d = length (data n)" by (rule shift_loop_length)
  have "\<not> (ptr < count n \<and> length (data n) \<le> count n)"
    using Some shift_loop_overflow[of ptr "count n" "data n"] by auto
  then have "length d \<le> ptr" using bad len by auto
  then show ?thesis using n Some by (simp add: shift_and_construct_def Let_def)
qed

text \<open>With \<^verbatim>\<open>NodeMaxSize <= 1\<close> the insertion into a full node is undefined.\<close>

lemma emplace_into_node_small:
  assumes N: "N \<le> 1"
    and ch: "chain s this as" and oks: "nodes_ok 0 N s as" and a: "a \<in> set as"
    and full: "count_at s a = N" and ptr: "ptr \<le> N"
  shows "emplace_into_node N s this (Some a) ptr args = None"
proof -
  from oks a obtain n where n: "node_at s a = Some n" and okn: "node_ok 0 N n"
    by (auto simp: nodes_ok_iff)
  have cn: "count n = N" using n full by (simp add: count_at_def)
  from a obtain pre post where as: "as = pre @ a # post" by (auto dest: split_list)
  let ?new = "length (heap s)"
  have half: "N div 2 = 0" using N by auto
  from split_node_wf[OF ch[unfolded as] oks[unfolded as] n cn, of ptr]
  obtain s1 where
    run1: "split_node N s this a ptr = Some (s1, a, ptr)"
    and oks1: "nodes_ok 0 N s1 (pre @ a # ?new # post)"
    and ca: "count_at s1 a = N"
    using half ptr N by auto
  from oks1 obtain n1 where n1: "node_at s1 a = Some n1" and ok1: "node_ok 0 N n1"
    by (auto simp: nodes_ok_iff)
  have c1: "count n1 = N" using ca n1 by (simp add: count_at_def)
  have l1: "length (data n1) = N" using ok1 by (simp add: node_ok_iff)
  have "shift_and_construct s1 this a ptr args = None"
    using n1 c1 l1 ptr by (intro shift_and_construct_None[OF n1]) auto
  then show ?thesis using n cn run1 by (simp add: emplace_into_node_def)
qed

text \<open>The state in which \<^verbatim>\<open>emplace\<close> calls \<^verbatim>\<open>emplace_into_node_\<close>.\<close>

lemma wf_nodes_ok0: "wf_list N s this as \<Longrightarrow> nodes_ok 0 N s as"
  by (auto simp: wf_list_def nodes_ok_iff node_ok_iff)

lemma wf_count_ge1: "wf_list N s this as \<Longrightarrow> a \<in> set as \<Longrightarrow> 1 \<le> count_at s a \<and> count_at s a \<le> N"
  by (auto simp: wf_list_def nodes_ok_iff node_ok_iff count_at_def)

lemma wf_empty: "wf_list N s this [] \<longleftrightarrow> lists s this = default_list"
  by (cases "lists s this") (auto simp: wf_list_def chain_def nodes_ok_def default_list_def)

lemma wf_head_tail:
  "wf_list N s this as \<Longrightarrow> as \<noteq> [] \<Longrightarrow>
   head (lists s this) = Some (hd as) \<and> tail (lists s this) = Some (last as)"
  by (cases as) (auto simp: wf_list_def chain_def)

lemma emplace_prepare:
  assumes wf: "wf_list N s this []"
  defines "s1 \<equiv> (let (s', p) = create_node N s
                  in set_list s' this ((lists s' this)\<lparr>head := Some p, tail := Some p\<rparr>))"
  shows "chain s1 this [length (heap s)]" "nodes_ok 0 N s1 [length (heap s)]"
    "total_size (lists s1 this) = sum_list (map (count_at s1) [length (heap s)])"
    "count_at s1 (length (heap s)) = 0" "length (heap s1) = Suc (length (heap s))"
    "tail (lists s1 this) = Some (length (heap s))"
proof -
  let ?p = "length (heap s)"
  have s1: "s1 = set_list (fst (create_node N s)) this ((lists s this)\<lparr>head := Some ?p, tail := Some ?p\<rparr>)"
    by (simp add: s1_def split_beta Let_def)
  have np: "node_at s1 ?p = Some \<lparr>count = 0, next' = None, prev = None, data = replicate N Raw\<rparr>"
    by (simp add: s1 node_at_create)
  show "chain s1 this [?p]" using np by (simp add: chain_def links_at_def) (simp add: s1)
  show "nodes_ok 0 N s1 [?p]" using np by (simp add: nodes_ok_iff node_ok_iff)
  show "count_at s1 ?p = 0" using np by (simp add: count_at_def)
  then show "total_size (lists s1 this) = sum_list (map (count_at s1) [?p])"
    using wf by (simp add: s1 wf_empty default_list_def)
  show "length (heap s1) = Suc ?p" by (simp add: s1)
  show "tail (lists s1 this) = Some ?p" by (simp add: s1)
qed

lemma emplace_resolve:
  assumes wf: "wf_list N s this as" and pos: "valid_pos s as pos"
  shows "\<exists>s1 as1 a ptr. emplace N s this pos args = emplace_into_node N s1 this (Some a) ptr args
         \<and> chain s1 this as1 \<and> nodes_ok 0 N s1 as1 \<and> a \<in> set as1
         \<and> (\<forall>b\<in>set as1. b \<noteq> a \<longrightarrow> 1 \<le> count_at s1 b)
         \<and> total_size (lists s1 this) = sum_list (map (count_at s1) as1)
         \<and> ptr \<le> count_at s1 a
         \<and> (if as = [] then length (heap s1) = Suc (length (heap s)) \<and> count_at s1 a = 0
             else s1 = s \<and> as1 = as)"
proof (cases "as = []")
  case True
  let ?p = "length (heap s)"
  define s1 where "s1 = (let (s', p) = create_node N s
                  in set_list s' this ((lists s' this)\<lparr>head := Some p, tail := Some p\<rparr>))"
  note prep = emplace_prepare[OF wf[unfolded True], folded s1_def]
  have hd: "head (lists s this) = None" using wf True by (simp add: wf_empty default_list_def)
  have pe: "current_node pos = None" using pos True by (auto simp: valid_pos_def valid_iter_def split: option.splits)
  obtain n1 where n1: "node_at s1 ?p = Some n1" "count n1 = 0"
    using prep(2,4) by (auto simp: nodes_ok_iff count_at_def)
  have e: "emplace N s this pos args = emplace_into_node N s1 this (Some ?p) 0 args"
    using hd pe prep(6) n1 by (simp add: emplace_def s1_def[symmetric])
  show ?thesis
    apply (rule exI[of _ s1], rule exI[of _ "[?p]"], rule exI[of _ ?p], rule exI[of _ 0])
    using e prep True by simp
next
  case False
  have hd: "head (lists s this) = Some (hd as)" and tl: "tail (lists s this) = Some (last as)"
    using wf_head_tail[OF wf False] by auto
  have ch: "chain s this as" and ts: "total_size (lists s this) = sum_list (map (count_at s) as)"
    using wf by (auto simp: wf_list_def)
  have oks: "nodes_ok 0 N s as" using wf by (rule wf_nodes_ok0)
  have ge: "\<And>a. a \<in> set as \<Longrightarrow> 1 \<le> count_at s a" using wf wf_count_ge1 by blast
  define a where "a = (case current_node pos of None \<Rightarrow> last as | Some b \<Rightarrow> b)"
  define ptr where "ptr = (case current_node pos of None \<Rightarrow> count_at s (last as) | Some b \<Rightarrow> index_in_node pos)"
  have a_in: "a \<in> set as" using pos False
    by (auto simp: a_def valid_pos_def valid_iter_def split: option.splits)
  have ptr_le: "ptr \<le> count_at s a" using pos
    by (auto simp: a_def ptr_def valid_pos_def valid_iter_def split: option.splits)
  obtain n where n: "node_at s a = Some n" using ch a_in chain_live by blast
  have e: "emplace N s this pos args = emplace_into_node N s this (Some a) ptr args"
  proof (cases "current_node pos")
    case None
    then have "a = last as" "ptr = count n" using n by (auto simp: a_def ptr_def count_at_def)
    then show ?thesis using hd tl None n by (simp add: emplace_def)
  next
    case (Some b)
    then show ?thesis using hd by (simp add: emplace_def a_def ptr_def)
  qed
  show ?thesis
    apply (rule exI[of _ s], rule exI[of _ as], rule exI[of _ a], rule exI[of _ ptr])
    using e ch oks a_in ge ts ptr_le False by simp
qed

text \<open>\<^verbatim>\<open>emplace\<close> returns and keeps the invariant, for \<^verbatim>\<open>NodeMaxSize >= 2\<close>.\<close>

lemma emplace_wf_total:
  assumes N: "2 \<le> N" and wf: "wf_list N s this as" and pos: "valid_pos s as pos"
  shows "\<exists>s' it as'. emplace N s this pos (Builds v) = Some (s', Returns it)
         \<and> wf_list N s' this as' \<and> length (heap s') \<le> Suc (length (heap s))"
proof -
  from emplace_resolve[OF wf pos, of "Builds v"]
  obtain s1 as1 a ptr where
    e: "emplace N s this pos (Builds v) = emplace_into_node N s1 this (Some a) ptr (Builds v)"
    and ch: "chain s1 this as1" and oks: "nodes_ok 0 N s1 as1" and a: "a \<in> set as1"
    and ge: "\<forall>b\<in>set as1. b \<noteq> a \<longrightarrow> 1 \<le> count_at s1 b"
    and ts: "total_size (lists s1 this) = sum_list (map (count_at s1) as1)"
    and ptr: "ptr \<le> count_at s1 a"
    and h: "if as = [] then length (heap s1) = Suc (length (heap s)) \<and> count_at s1 a = 0
             else s1 = s \<and> as1 = as"
    by blast
  have "count_at s1 a = N \<longrightarrow> 2 \<le> N" using N by simp
  from emplace_into_node_wf[OF this ch oks a ge ts ptr, where v = v]
  obtain s' it as' where r: "emplace_into_node N s1 this (Some a) ptr (Builds v) = Some (s', Returns it)"
    "wf_list N s' this as'" "length (heap s') \<le> Suc (length (heap s1))"
    "count_at s1 a < N \<longrightarrow> as' = as1 \<and> length (heap s') = length (heap s1)"
    by blast
  have "length (heap s') \<le> Suc (length (heap s))"
    using r(3,4) h N by (auto split: if_splits)
  then show ?thesis using e r(1,2) by auto
qed

lemma shift_and_construct_Throwing:
  "shift_and_construct s this node ptr Throwing = Some (s', r) \<Longrightarrow> r = Throws Constructor_threw"
  by (auto simp: shift_and_construct_def Let_def split: Option.bind_splits if_splits)

lemma emplace_into_node_Throwing:
  "emplace_into_node N s this node ptr Throwing = Some (s', r) \<Longrightarrow> r = Throws Constructor_threw"
  by (auto simp: emplace_into_node_def split: option.splits Option.bind_splits if_splits
      dest: shift_and_construct_Throwing)

text \<open>Whenever \<^verbatim>\<open>emplace\<close> returns, for any \<^verbatim>\<open>NodeMaxSize\<close>, the invariant holds.\<close>

lemma emplace_wf:
  assumes wf: "wf_list N s this as" and pos: "valid_pos s as pos"
    and r: "emplace N s this pos args = Some (s', Returns it)"
  shows "\<exists>as'. wf_list N s' this as'"
proof -
  from emplace_resolve[OF wf pos, of args]
  obtain s1 as1 a ptr where
    e: "emplace N s this pos args = emplace_into_node N s1 this (Some a) ptr args"
    and ch: "chain s1 this as1" and oks: "nodes_ok 0 N s1 as1" and a: "a \<in> set as1"
    and ge: "\<forall>b\<in>set as1. b \<noteq> a \<longrightarrow> 1 \<le> count_at s1 b"
    and ts: "total_size (lists s1 this) = sum_list (map (count_at s1) as1)"
    and ptr: "ptr \<le> count_at s1 a"
    by blast
  obtain v where v: "args = Builds v"
    using r e emplace_into_node_Throwing by (cases args) fastforce+
  show ?thesis
  proof (cases "count_at s1 a = N \<and> N \<le> 1")
    case True
    then have "emplace_into_node N s1 this (Some a) ptr args = None"
      using emplace_into_node_small[OF _ ch oks a] ptr by auto
    then show ?thesis using r e by simp
  next
    case False
    then have "count_at s1 a = N \<longrightarrow> 2 \<le> N" by auto
    from emplace_into_node_wf[OF this ch oks a ge ts ptr, where v = v]
    show ?thesis using r e v by auto
  qed
qed

section \<open>Erasure keeps the invariant\<close>


lemma payload_at_set_list [simp]: "payload_at (set_list s t c) = payload_at s"
  by (rule ext) (simp add: payload_at_def)

lemma payload_at_set_node_links:
  "node_at s p = Some n \<Longrightarrow> count n' = count n \<Longrightarrow> data n' = data n \<Longrightarrow>
   payload_at (set_node s p n') = payload_at s"
  by (rule ext) (auto simp: payload_at_def node_at_set_node)

lemma payload_at_free:
  "payload_at (s\<lparr>heap := (heap s)[a := None]\<rparr>) x = (if x = a then None else payload_at s x)"
  by (simp add: payload_at_def node_at_free)

lemma links_at_free:
  "links_at (s\<lparr>heap := (heap s)[a := None]\<rparr>) x = (if x = a then None else links_at s x)"
  by (simp add: links_at_def node_at_free)

lemma count_at_payload: "payload_at s' x = payload_at s x \<Longrightarrow> count_at s' x = count_at s x"
  by (cases "node_at s x"; cases "node_at s' x") (auto simp: payload_at_def count_at_def)

lemma node_ok_payload:
  "payload_at s' x = payload_at s x \<Longrightarrow> node_at s x = Some m \<Longrightarrow> node_ok lo N m \<Longrightarrow>
   \<exists>m'. node_at s' x = Some m' \<and> node_ok lo N m' \<and> count m' = count m \<and> data m' = data m"
  by (cases "node_at s' x") (auto simp: payload_at_def node_ok_def)

lemma distinct_hd_last: "distinct as \<Longrightarrow> as \<noteq> [] \<Longrightarrow> hd as = last as \<Longrightarrow> \<exists>x. as = [x]"
  by (cases as) (auto split: if_splits)

text \<open>A node that \<^verbatim>\<open>~Node\<close> may run on: every slot below its count holds an object.\<close>

definition dtor_ok :: "'a Node \<Rightarrow> bool" where
  "dtor_ok n \<longleftrightarrow> count n \<le> length (data n) \<and> (\<forall>k<count n. data n ! k \<noteq> Raw)"

lemma dtor_ok_empty: "count n = 0 \<Longrightarrow> dtor_ok n"
  by (simp add: dtor_ok_def)

lemma dtor_ok_node_ok: "node_ok lo N n \<Longrightarrow> dtor_ok n"
  by (auto simp: dtor_ok_def node_ok_iff is_obj_conv)

lemma dtor_loop_spec:
  "cnt \<le> length d \<Longrightarrow> (\<forall>k. i \<le> k \<and> k < cnt \<longrightarrow> d ! k \<noteq> Raw) \<Longrightarrow>
   \<exists>d'. dtor_loop d i cnt = Some d'"
proof (induction d i cnt rule: dtor_loop.induct)
  case (1 d i cnt)
  show ?case
  proof (cases "i < cnt")
    case False
    then show ?thesis by (subst dtor_loop.simps) simp
  next
    case True
    then have il: "i < length d" using "1.prems" by simp
    have "d ! i \<noteq> Raw" using True "1.prems"(2) by simp
    then have dd: "destroy d i = Some (d[i := Raw])" using il by (rule destroy_Some[rotated])
    have nr: "\<forall>k. i + 1 \<le> k \<and> k < cnt \<longrightarrow> d[i := Raw] ! k \<noteq> Raw"
      using "1.prems"(2) by simp
    from "1.IH"[OF True dd] "1.prems"(1) nr
    obtain d' where "dtor_loop (d[i := Raw]) (i + 1) cnt = Some d'" by auto
    then show ?thesis using True dd by (subst dtor_loop.simps) simp
  qed
qed

lemma destroy_node_eq:
  "node_at s p = Some n \<Longrightarrow> dtor_ok n \<Longrightarrow>
   destroy_node s p = Some (s\<lparr>heap := (heap s)[p := None]\<rparr>)"
  using dtor_loop_spec[of "count n" "data n" 0]
  by (auto simp: destroy_node_def dtor_ok_def)

text \<open>\<^verbatim>\<open>~Node\<close> on a node whose first slot has been destroyed already.\<close>

lemma destroy_node_twice:
  "node_at s p = Some n \<Longrightarrow> 0 < count n \<Longrightarrow> data n ! 0 = Raw \<Longrightarrow> destroy_node s p = None"
  by (simp add: destroy_node_def dtor_loop.simps[of _ 0] destroy_Raw)

lemma lists_heap_upd [simp]: "lists (s\<lparr>heap := h\<rparr>) = lists s"
  by simp

lemma remove_node_wf:
  assumes ch: "chain s this (pre @ a # post)"
    and dt: "\<forall>n. node_at s a = Some n \<longrightarrow> dtor_ok n"
  shows "\<exists>s'. remove_node s this a =
            Some (s', \<lparr>current_node = (case post of [] \<Rightarrow> None | q # _ \<Rightarrow> Some q),
                       index_in_node = 0, parent = this\<rparr>)
         \<and> chain s' this (pre @ post)
         \<and> (\<forall>x. x \<noteq> a \<longrightarrow> payload_at s' x = payload_at s x)
         \<and> total_size (lists s' this) = total_size (lists s this)
         \<and> length (heap s') = length (heap s)"
proof -
  let ?as = "pre @ a # post"
  let ?c = "lists s this"
  from ch have ds: "dseg s None (head ?c) ?as None"
    and tl: "tail ?c = Some (last ?as)" and dist: "distinct ?as"
    by (auto simp: chain_def)
  have hd: "head ?c = Some (hd ?as)" using ds by (cases pre) auto
  from ds obtain nx where pre: "dseg s None (head ?c) pre (Some a)"
    and la: "links_at s a = Some (nx, if pre = [] then None else Some (last pre))"
    and post: "dseg s (Some a) nx post None"
    by (auto simp: dseg_mid)
  obtain n where n: "node_at s a = Some n" using ch chain_live by fastforce
  have dn: "dtor_ok n" using dt n by simp
  from la n have nxn: "next' n = nx" and pvn: "prev n = (if pre = [] then None else Some (last pre))"
    by (auto simp: links_at_def)
  have live: "\<And>x. x \<in> set ?as \<Longrightarrow> \<exists>m. node_at s x = Some m"
    using ch chain_live by blast
  show ?thesis
  proof (cases "pre = []")
    case pe: True
    show ?thesis
    proof (cases post)
      case Nil
      let ?s' = "set_list (s\<lparr>heap := (heap s)[a := None]\<rparr>) this (?c\<lparr>head := None, tail := None\<rparr>)"
      have "remove_node s this a = Some (?s', \<lparr>current_node = None, index_in_node = 0, parent = this\<rparr>)"
        using hd tl pe Nil n by (simp add: remove_node_def destroy_node_eq[OF _ dn])
      moreover have "chain ?s' this []" by (simp add: chain_def)
      moreover have "\<forall>x. x \<noteq> a \<longrightarrow> payload_at ?s' x = payload_at s x"
        by (simp add: payload_at_free)
      ultimately show ?thesis using pe Nil by auto
    next
      case (Cons q post')
      have nxq: "nx = Some q" using post Cons by simp
      from post Cons obtain nx2 where lq: "links_at s q = Some (nx2, Some a)"
        and rest: "dseg s (Some q) nx2 post' None" by auto
      have q_ne: "q \<noteq> a" "q \<notin> set post'" "a \<notin> set post'" using dist Cons by auto
      obtain nq where nq: "node_at s q = Some nq" using live Cons by fastforce
      have ht: "head ?c \<noteq> tail ?c" "Some a = head ?c"
        using hd tl pe Cons dist by auto
      let ?s1 = "set_list s this (?c\<lparr>head := Some q\<rparr>)"
      let ?s2 = "set_node ?s1 q (nq\<lparr>prev := None\<rparr>)"
      let ?s' = "?s2\<lparr>heap := (heap ?s2)[a := None]\<rparr>"
      have a2: "node_at ?s2 a = Some n" using n q_ne by (simp add: node_at_set_node_other)
      have run: "remove_node s this a = Some (?s', \<lparr>current_node = Some q, index_in_node = 0, parent = this\<rparr>)"
        using ht n nxn nxq nq a2
        by (simp add: remove_node_def Let_def upd_node_eq destroy_node_eq[OF _ dn])
      have lq': "links_at ?s' q = Some (nx2, None)"
        using lq nq q_ne node_at_lt[OF nq]
        by (simp add: links_at_free links_at_set_node) (simp add: links_at_def)
      have "dseg ?s' (Some q) nx2 post' None = dseg s (Some q) nx2 post' None"
      proof (rule dseg_links_cong)
        fix x assume "x \<in> set post'"
        then have "x \<noteq> a" "x \<noteq> q" using q_ne by auto
        then show "links_at ?s' x = links_at s x"
          by (simp add: links_at_free links_at_set_node)
      qed
      then have "dseg ?s' None (Some q) post None"
        using Cons lq' rest by simp
      moreover have "tail (lists ?s' this) = Some (last post)" using tl pe Cons by simp
      moreover have "head (lists ?s' this) = Some q" by simp
      ultimately have ch': "chain ?s' this (pre @ post)"
        using pe dist Cons by (simp add: chain_def)
      have pl: "\<forall>x. x \<noteq> a \<longrightarrow> payload_at ?s' x = payload_at s x"
        using payload_at_set_node_links[of ?s1 q nq "nq\<lparr>prev := None\<rparr>"] nq
        by (simp add: payload_at_free)
      show ?thesis using run ch' pl Cons by simp
    qed
  next
    case pne: False
    then obtain pre' p where pre_eq: "pre = pre' @ [p]" by (metis rev_exhaust)
    have lastp: "last pre = p" using pre_eq by simp
    have pvp: "prev n = Some p" using pvn pne lastp by simp
    from pre pre_eq obtain nxp where pre'': "dseg s None (head ?c) pre' (Some p)"
      and lp: "links_at s p = Some (nxp, if pre' = [] then None else Some (last pre'))"
      and pa: "dseg s (Some p) nxp [] (Some a)"
      by (auto simp: dseg_mid)
    have nxp: "nxp = Some a" using pa by simp
    have p_ne: "p \<noteq> a" "p \<notin> set pre'" "a \<notin> set pre'" "p \<notin> set post" using dist pre_eq by auto
    obtain np where np: "node_at s p = Some np" using live pre_eq by fastforce
    have hd_ne: "head ?c \<noteq> Some a" using hd pre_eq dist by (cases pre') auto
    show ?thesis
    proof (cases post)
      case Nil
      have nxN: "nx = None" using post Nil by simp
      have ht: "head ?c \<noteq> tail ?c" "Some a \<noteq> head ?c" "Some a = tail ?c"
        using hd_ne tl Nil by auto
      let ?s1 = "set_list s this (?c\<lparr>tail := Some p\<rparr>)"
      let ?s2 = "set_node ?s1 p (np\<lparr>next' := None\<rparr>)"
      let ?s' = "?s2\<lparr>heap := (heap ?s2)[a := None]\<rparr>"
      have a2: "node_at ?s2 a = Some n" using n p_ne by (simp add: node_at_set_node_other)
      have run: "remove_node s this a = Some (?s', \<lparr>current_node = None, index_in_node = 0, parent = this\<rparr>)"
        using ht n pvp np a2
        by (simp add: remove_node_def Let_def upd_node_eq destroy_node_eq[OF _ dn])
      have lp': "links_at ?s' p = Some (None, if pre' = [] then None else Some (last pre'))"
        using lp np p_ne node_at_lt[OF np]
        by (simp add: links_at_free links_at_set_node) (simp add: links_at_def)
      have "dseg ?s' None (head ?c) pre' (Some p) = dseg s None (head ?c) pre' (Some p)"
      proof (rule dseg_links_cong)
        fix x assume "x \<in> set pre'"
        then have "x \<noteq> a" "x \<noteq> p" using p_ne by auto
        then show "links_at ?s' x = links_at s x"
          by (simp add: links_at_free links_at_set_node)
      qed
      then have "dseg ?s' None (head (lists ?s' this)) pre None"
        using pre'' lp' pre_eq by (simp add: dseg_mid)
      moreover have "tail (lists ?s' this) = Some (last pre)" using lastp by simp
      ultimately have ch': "chain ?s' this (pre @ post)"
        using pne dist Nil by (simp add: chain_def)
      have pl: "\<forall>x. x \<noteq> a \<longrightarrow> payload_at ?s' x = payload_at s x"
        using payload_at_set_node_links[of ?s1 p np "np\<lparr>next' := None\<rparr>"] np
        by (simp add: payload_at_free)
      show ?thesis using run ch' pl Nil by simp
    next
      case (Cons q post')
      have nxq: "nx = Some q" using post Cons by simp
      from post Cons obtain nx2 where lq: "links_at s q = Some (nx2, Some a)"
        and rest: "dseg s (Some q) nx2 post' None" by auto
      have q_ne: "q \<noteq> a" "q \<notin> set post'" "a \<notin> set post'" "q \<noteq> p" "q \<notin> set pre'"
        "p \<notin> set post'"
        using dist Cons pre_eq by auto
      obtain nq where nq: "node_at s q = Some nq" using live Cons by fastforce
      have ht: "head ?c \<noteq> tail ?c" "Some a \<noteq> head ?c" "Some a \<noteq> tail ?c"
        using hd tl dist Cons pre_eq hd_ne by (cases pre'; auto)+
      let ?s1 = "set_node s p (np\<lparr>next' := Some q\<rparr>)"
      let ?s2 = "set_node ?s1 q (nq\<lparr>prev := Some p\<rparr>)"
      let ?s' = "?s2\<lparr>heap := (heap ?s2)[a := None]\<rparr>"
      have a1: "node_at ?s1 a = Some n" using n p_ne by (simp add: node_at_set_node_other)
      have q1: "node_at ?s1 q = Some nq" using nq q_ne by (simp add: node_at_set_node_other)
      have a2: "node_at ?s2 a = Some n" using a1 q_ne by (simp add: node_at_set_node_other)
      have run: "remove_node s this a = Some (?s', \<lparr>current_node = Some q, index_in_node = 0, parent = this\<rparr>)"
        using ht n pvp nxn nxq np a1 q1 a2
        by (simp add: remove_node_def Let_def upd_node_eq destroy_node_eq[OF _ dn])
      have lp': "links_at ?s' p = Some (Some q, if pre' = [] then None else Some (last pre'))"
        using lp np p_ne q_ne node_at_lt[OF np]
        by (simp add: links_at_free links_at_set_node) (simp add: links_at_def)
      have lq': "links_at ?s' q = Some (nx2, Some p)"
        using lq nq q_ne node_at_lt[OF nq]
        by (simp add: links_at_free links_at_set_node) (simp add: links_at_def)
      have c1: "dseg ?s' None (head ?c) pre' (Some p) = dseg s None (head ?c) pre' (Some p)"
      proof (rule dseg_links_cong)
        fix x assume "x \<in> set pre'"
        then have "x \<noteq> a" "x \<noteq> p" "x \<noteq> q" using p_ne q_ne by auto
        then show "links_at ?s' x = links_at s x"
          by (simp add: links_at_free links_at_set_node)
      qed
      have c2: "dseg ?s' (Some q) nx2 post' None = dseg s (Some q) nx2 post' None"
      proof (rule dseg_links_cong)
        fix x assume "x \<in> set post'"
        then have "x \<noteq> a" "x \<noteq> p" "x \<noteq> q" using p_ne q_ne by auto
        then show "links_at ?s' x = links_at s x"
          by (simp add: links_at_free links_at_set_node)
      qed
      have "dseg ?s' None (head (lists ?s' this)) (pre' @ p # q # post') None"
        using c1 c2 pre'' rest lp' lq' by (simp add: dseg_mid)
      moreover have "tail (lists ?s' this) = Some (last (pre @ post))" using tl Cons by simp
      ultimately have ch': "chain ?s' this (pre @ post)"
        using dist Cons pre_eq by (simp add: chain_def)
      have pl: "\<forall>x. x \<noteq> a \<longrightarrow> payload_at ?s' x = payload_at s x"
        using payload_at_set_node_links[of s p np "np\<lparr>next' := Some q\<rparr>"] np
          payload_at_set_node_links[of ?s1 q nq "nq\<lparr>prev := Some p\<rparr>"] q1
        by (simp add: payload_at_free)
      show ?thesis using run ch' pl Cons by simp
    qed
  qed
qed

lemma size_minus_le [simp]: "b \<le> a \<Longrightarrow> size_minus a b = a - b"
  by (simp add: size_minus_def)

text \<open>Destroying the slots from \<open>i\<close> to \<open>j\<close> and closing the gap, inside one node.\<close>

lemma erase_slots:
  assumes n: "node_at st a = Some n" and ok: "node_ok lo N n" and ij: "i \<le> j" and jc: "j \<le> count n"
  shows "\<exists>d1 d2. destroy_loop (data n) i j ec = Some (d1, ec + (j - i))
         \<and> normalize_node (set_node st a (n\<lparr>data := d1\<rparr>)) a j (j - i)
             = Some (set_node st a (n\<lparr>data := d2\<rparr>))
         \<and> node_ok 0 N (n\<lparr>data := d2, count := count n - (j - i)\<rparr>)"
proof -
  from ok have len: "length (data n) = N" and cN: "count n \<le> N"
    and objs: "\<forall>k<count n. is_obj (data n ! k)"
    by (auto simp: node_ok_iff)
  have nr: "\<forall>k. i \<le> k \<and> k < j \<longrightarrow> data n ! k \<noteq> Raw"
  proof (intro allI impI)
    fix k assume "i \<le> k \<and> k < j"
    then have "k < count n" using jc by simp
    then obtain v where "data n ! k = Obj v" using objs by (auto simp: is_obj_conv)
    then show "data n ! k \<noteq> Raw" by simp
  qed
  from destroy_loop_spec[of j "data n" i ec] jc cN len nr
  obtain d1 where d1: "destroy_loop (data n) i j ec = Some (d1, ec + (j - i))"
    "length d1 = N" "\<forall>k. k < i \<or> j \<le> k \<longrightarrow> d1 ! k = data n ! k"
    by auto
  have a_lt: "a < length (heap st)" using n by (rule node_at_lt)
  show ?thesis
  proof (cases "i = j")
    case True
    have "normalize_node (set_node st a (n\<lparr>data := d1\<rparr>)) a j (j - i)
             = Some (set_node st a (n\<lparr>data := d1\<rparr>))"
      using True by (simp add: normalize_node_def)
    moreover have "\<forall>k. d1 ! k = data n ! k" using d1(3) True by (metis not_le)
    then have "node_ok 0 N (n\<lparr>data := d1, count := count n - (j - i)\<rparr>)"
      using True d1(2) objs cN by (auto simp: node_ok_iff)
    ultimately show ?thesis using d1(1) by blast
  next
    case False
    then have sh: "0 < j - i" "j - i \<le> j" using ij by auto
    have pre: "\<forall>k. j \<le> k \<and> k < count n \<longrightarrow> is_obj (d1 ! k)" using d1(3) objs by auto
    from normalize_loop_spec[OF sh, of "count n" d1] pre d1(2) cN
    obtain d2 where d2: "normalize_loop d1 j (count n) (j - i) = Some d2" "length d2 = N"
      "\<forall>k. k < j - (j - i) \<longrightarrow> d2 ! k = d1 ! k"
      "\<forall>k. j - (j - i) \<le> k \<and> k + (j - i) < count n \<longrightarrow> d2 ! k = d1 ! (k + (j - i))"
      by auto
    have "normalize_node (set_node st a (n\<lparr>data := d1\<rparr>)) a j (j - i)
             = Some (set_node st a (n\<lparr>data := d2\<rparr>))"
      using sh a_lt d2(1) by (simp add: normalize_node_def node_at_set_node)
    moreover have "node_ok 0 N (n\<lparr>data := d2, count := count n - (j - i)\<rparr>)"
      unfolding node_ok_iff
    proof (intro conjI allI impI)
      fix k assume "k < count (n\<lparr>data := d2, count := count n - (j - i)\<rparr>)"
      then have k: "k + (j - i) < count n" by simp
      show "is_obj (data (n\<lparr>data := d2, count := count n - (j - i)\<rparr>) ! k)"
      proof (cases "k < i")
        case True
        then have "d2 ! k = data n ! k" using d2(3) d1(3) ij by auto
        then show ?thesis using objs k by simp
      next
        case False
        then have "d2 ! k = d1 ! (k + (j - i))" using d2(4) k ij by auto
        also have "\<dots> = data n ! (k + (j - i))" using d1(3) False ij by auto
        finally show ?thesis using objs k by simp
      qed
    qed (use cN d2(2) in auto)
    ultimately show ?thesis using d1(1) by blast
  qed
qed

lemma nodes_ok_payload:
  assumes "nodes_ok lo N s as" and "\<And>x. x \<in> set as \<Longrightarrow> payload_at s' x = payload_at s x"
  shows "nodes_ok lo N s' as"
  unfolding nodes_ok_iff
proof
  fix x assume x: "x \<in> set as"
  then obtain m where "node_at s x = Some m" "node_ok lo N m"
    using assms(1) by (auto simp: nodes_ok_iff)
  from node_ok_payload[OF assms(2)[OF x] this]
  show "\<exists>n. node_at s' x = Some n \<and> node_ok lo N n" by blast
qed

lemma sum_counts_payload:
  assumes "\<And>x. x \<in> set as \<Longrightarrow> payload_at s' x = payload_at s x"
  shows "sum_list (map (count_at s') as) = sum_list (map (count_at s) as)"
  using assms by (intro sum_list_map_same) (auto intro: count_at_payload)

lemma payload_at_set_node_other: "x \<noteq> p \<Longrightarrow> payload_at (set_node s p n) x = payload_at s x"
  by (simp add: payload_at_def node_at_set_node_other)

text \<open>
  The loop over the nodes between the first and the last node of the range. When the two
  are neighbours it does nothing.
\<close>

lemma erase_between_adjacent: "erase_between s this (Some e) e ec = Some (s, ec)"
  by (subst erase_between.simps) simp

text \<open>
  On a node in between, the loop destroys every element and leaves \<^verbatim>\<open>count\<close> as it is;
  \<^verbatim>\<open>remove_node\<close> then runs \<^verbatim>\<open>~Node\<close>, which destroys the same slots a second time.
\<close>

lemma destroy_node_twice_payload:
  "payload_at s p = Some (c, d) \<Longrightarrow> 0 < c \<Longrightarrow> d ! 0 = Raw \<Longrightarrow> destroy_node s p = None"
  by (cases "node_at s p") (auto simp: payload_at_def intro: destroy_node_twice)

lemma payload_at_upd_prev:
  "upd_node s q (\<lambda>m. m\<lparr>prev := x\<rparr>) = Some s' \<Longrightarrow> payload_at s' = payload_at s"
  by (auto simp: upd_node_Some payload_at_set_node_links)

lemma payload_at_upd_next:
  "upd_node s q (\<lambda>m. m\<lparr>next' := x\<rparr>) = Some s' \<Longrightarrow> payload_at s' = payload_at s"
  by (auto simp: upd_node_Some payload_at_set_node_links)

lemma remove_node_twice:
  assumes p: "payload_at s m = Some (c, d)" and c: "0 < c" and r: "d ! 0 = Raw"
  shows "remove_node s this m = None"
proof -
  have dn: "\<And>s'. payload_at s' = payload_at s \<Longrightarrow> destroy_node s' m = None"
    using destroy_node_twice_payload[OF _ c r] p by simp
  show ?thesis
    unfolding remove_node_def Let_def
    by (auto simp: dn payload_at_upd_prev payload_at_upd_next split: Option.bind_split)
qed

lemma erase_between_twice:
  assumes nm: "node_at s m = Some nm" and ok: "node_ok 1 N nm" and me: "m \<noteq> e"
  shows "erase_between s this (Some m) e ec = None"
proof -
  from ok have cl: "count nm \<le> length (data nm)" and c1: "0 < count nm"
    and objs: "\<forall>k<count nm. is_obj (data nm ! k)"
    by (auto simp: node_ok_iff)
  have nr: "\<forall>k. 0 \<le> k \<and> k < count nm \<longrightarrow> data nm ! k \<noteq> Raw"
  proof (intro allI impI)
    fix k assume "0 \<le> k \<and> k < count nm"
    then obtain v where "data nm ! k = Obj v" using objs by (auto simp: is_obj_conv)
    then show "data nm ! k \<noteq> Raw" by simp
  qed
  from destroy_loop_spec[OF cl nr, of ec]
  obtain d where d: "destroy_loop (data nm) 0 (count nm) ec = Some (d, ec + count nm)"
    and raw: "\<forall>k. 0 \<le> k \<and> k < count nm \<longrightarrow> d ! k = Raw" by auto
  have d0: "d ! 0 = Raw" using raw c1 by simp
  have "payload_at (set_node s m (nm\<lparr>data := d\<rparr>)) m = Some (count nm, d)"
    using nm by (simp add: payload_at_def node_at_set_node_same)
  from remove_node_twice[OF this c1 d0]
  have "remove_node (set_node s m (nm\<lparr>data := d\<rparr>)) this m = None" .
  then show ?thesis using nm me d by (subst erase_between.simps) simp
qed

lemma wf_listD:
  "wf_list N s this as \<Longrightarrow> chain s this as"
  "wf_list N s this as \<Longrightarrow> nodes_ok 1 N s as"
  "wf_list N s this as \<Longrightarrow> total_size (lists s this) = sum_list (map (count_at s) as)"
  by (simp_all add: wf_list_def)

lemma payload_at_Some: "node_at s a = Some n \<Longrightarrow> payload_at s a = Some (count n, data n)"
  by (simp add: payload_at_def)

lemma payload_at_set_node_same:
  "node_at s a = Some m \<Longrightarrow> payload_at (set_node s a n) a = Some (count n, data n)"
  by (simp add: payload_at_def node_at_set_node_same)

lemma nodes_ok_append [simp]:
  "nodes_ok lo N s (as @ bs) \<longleftrightarrow> nodes_ok lo N s as \<and> nodes_ok lo N s bs"
  by (simp add: nodes_ok_def)

lemma nodes_ok_Cons:
  "nodes_ok lo N s (a # as) \<longleftrightarrow> (\<exists>n. node_at s a = Some n \<and> node_ok lo N n) \<and> nodes_ok lo N s as"
  by (auto simp: nodes_ok_def split: option.splits)

lemma nodes_ok_Nil [simp]: "nodes_ok lo N s []"
  by (simp add: nodes_ok_def)

text \<open>The range lies in one node.\<close>

lemma erase_in_node_wf:
  assumes wf: "wf_list N s this (pre @ a # post)"
    and lt: "si < ei" and le: "ei \<le> count_at s a"
  shows "\<exists>s' it as'. erase_in_node s this a si a ei = Some (s', it) \<and> wf_list N s' this as'"
proof -
  let ?as = "pre @ a # post"
  note ch = wf_listD(1)[OF wf] and oks = wf_listD(2)[OF wf] and ts = wf_listD(3)[OF wf]
  from oks obtain n where n: "node_at s a = Some n" and okn: "node_ok 1 N n"
    by (auto simp: nodes_ok_Cons)
  have cn: "count_at s a = count n" using n by (rule count_at_Some)
  have dist: "distinct ?as" using ch by (simp add: chain_def)
  let ?k = "ei - si"
  from erase_slots[OF n okn, of si ei 0] lt le cn
  obtain d1 d2 where dl: "destroy_loop (data n) si ei 0 = Some (d1, ?k)"
    and nz: "normalize_node (set_node s a (n\<lparr>data := d1\<rparr>)) a ei ?k
             = Some (set_node s a (n\<lparr>data := d2\<rparr>))"
    and ok': "node_ok 0 N (n\<lparr>data := d2, count := count n - ?k\<rparr>)"
    by auto
  let ?n' = "n\<lparr>data := d2, count := count n - ?k\<rparr>"
  let ?s3 = "set_node s a ?n'"
  let ?s4 = "set_list ?s3 this ((lists s this)\<lparr>total_size := total_size (lists s this) - ?k\<rparr>)"
  have kc: "?k \<le> count n" using le cn by simp
  have "count n \<le> sum_list (map (count_at s) ?as)" using cn by simp
  then have kt: "?k \<le> total_size (lists s this)" using kc ts by simp
  have u3: "upd_node (set_node s a (n\<lparr>data := d2\<rparr>)) a (\<lambda>m. m\<lparr>count := size_minus (count m) ?k\<rparr>)
      = Some ?s3"
    using n kc by (simp add: upd_node_def node_at_set_node_same)
  have n4: "node_at ?s4 a = Some ?n'" using n by (simp add: node_at_set_node_same)
  have a_in: "a \<in> set ?as" by simp
  from wf_payload_update[OF ch oks a_in n _ _ ok']
  have ch3: "chain ?s3 this ?as" and oks3: "nodes_ok 0 N ?s3 ?as"
    and sum3: "sum_list (map (count_at ?s3) ?as) + count n = sum_list (map (count_at s) ?as) + count ?n'"
    by auto
  have ch4: "chain ?s4 this ?as"
    using ch3 chain_set_total_size[of ?s3 this _ ?as] by simp
  have pl4: "\<And>x. x \<noteq> a \<Longrightarrow> payload_at ?s4 x = payload_at s x"
    by (simp add: payload_at_set_node_other)
  have ts4: "total_size (lists ?s4 this) + ?k = sum_list (map (count_at s) ?as)"
    using ts kt by simp
  have oks_pp: "nodes_ok 1 N s (pre @ post)" using oks by (simp add: nodes_ok_Cons)
  show ?thesis
  proof (cases "count n - ?k = 0")
    case True
    have dt4: "\<forall>na. node_at ?s4 a = Some na \<longrightarrow> dtor_ok na"
      using n4 True by (auto simp: dtor_ok_def)
    from remove_node_wf[OF ch4 dt4]
    obtain s' it where rm: "remove_node ?s4 this a = Some (s', it)"
      and ch': "chain s' this (pre @ post)"
      and pl': "\<forall>x. x \<noteq> a \<longrightarrow> payload_at s' x = payload_at ?s4 x"
      and ts': "total_size (lists s' this) = total_size (lists ?s4 this)"
      by blast
    have pl: "\<And>x. x \<in> set (pre @ post) \<Longrightarrow> payload_at s' x = payload_at s x"
    proof -
      fix x assume "x \<in> set (pre @ post)"
      then have "x \<noteq> a" using dist by auto
      then show "payload_at s' x = payload_at s x" using pl' pl4 by simp
    qed
    have oks': "nodes_ok 1 N s' (pre @ post)"
      using oks_pp pl by (rule nodes_ok_payload)
    have "sum_list (map (count_at s') (pre @ post)) = sum_list (map (count_at s) (pre @ post))"
      using pl by (rule sum_counts_payload)
    then have "total_size (lists s' this) = sum_list (map (count_at s') (pre @ post))"
      using ts' ts4 True kc cn by simp
    then have "wf_list N s' this (pre @ post)" using ch' oks' by (simp add: wf_list_def)
    moreover have "erase_in_node s this a si a ei = Some (s', it)"
      using n dl nz u3 n4 kt True rm by (simp add: erase_in_node_def Let_def)
    ultimately show ?thesis by blast
  next
    case False
    then have "node_ok 1 N ?n'" using ok' by (auto simp: node_ok_iff)
    moreover have "nodes_ok 1 N ?s4 (pre @ post)"
    proof (rule nodes_ok_payload[OF oks_pp])
      fix x assume "x \<in> set (pre @ post)"
      then have "x \<noteq> a" using dist by auto
      then show "payload_at ?s4 x = payload_at s x" by (rule pl4)
    qed
    ultimately have "nodes_ok 1 N ?s4 ?as"
      using n4 by (simp add: nodes_ok_Cons)
    moreover have "total_size (lists ?s4 this) = sum_list (map (count_at ?s4) ?as)"
    proof -
      have cn': "count ?n' = count n - ?k" by simp
      have t4: "total_size (lists ?s4 this) = total_size (lists s this) - ?k" by simp
      have c4: "count_at ?s4 = count_at ?s3" by simp
      from sum3[unfolded cn'] ts kc
      have X: "total_size (lists s this) - ?k = sum_list (map (count_at ?s3) ?as)" by arith
      show ?thesis unfolding t4 c4 by (rule X)
    qed
    ultimately have "wf_list N ?s4 this ?as" using ch4 by (simp only: wf_list_def simp_thms)
    moreover have "erase_in_node s this a si a ei =
        Some (?s4, \<lparr>current_node = Some a, index_in_node = si, parent = this\<rparr>)"
      using n dl nz u3 n4 kt False by (simp add: erase_in_node_def Let_def)
    ultimately show ?thesis by blast
  qed
qed

lemma node_ok_of_payload:
  assumes "payload_at s x = Some (c, d)" and "lo \<le> c" "c \<le> N" "length d = N"
    "\<forall>k<c. is_obj (d ! k)"
  shows "\<exists>m. node_at s x = Some m \<and> node_ok lo N m"
  using assms by (cases "node_at s x") (auto simp: payload_at_def node_ok_iff)

lemma count_at_of_payload: "payload_at s x = Some (c, d) \<Longrightarrow> count_at s x = c"
  by (cases "node_at s x") (auto simp: payload_at_def count_at_def)

lemma chain_next:
  assumes "chain s this (pre @ a # rest)" and "node_at s a = Some n"
  shows "next' n = (case rest of [] \<Rightarrow> None | q # _ \<Rightarrow> Some q)"
proof -
  from assms(1) obtain nx where "links_at s a = Some (nx, if pre = [] then None else Some (last pre))"
    and "dseg s (Some a) nx rest None"
    unfolding chain_def dseg_mid by blast
  then show ?thesis using assms(2) by (cases rest) (auto simp: links_at_def)
qed

text \<open>The range starts in one node and ends in a later one.\<close>

lemma erase_across_wf:
  assumes wf: "wf_list N s this (pre @ a # mid @ e # post)"
    and lt: "si < count_at s a" and le: "ei \<le> count_at s e" and mt: "mid = []"
  shows "\<exists>s' it as'. erase_across s this a si e ei = Some (s', it) \<and> wf_list N s' this as'"
proof -
  let ?as = "pre @ a # mid @ e # post"
  note ch = wf_listD(1)[OF wf] and oks = wf_listD(2)[OF wf] and ts = wf_listD(3)[OF wf]
  have dist: "distinct ?as" using ch by (simp add: chain_def)
  from oks obtain n where n: "node_at s a = Some n" and okn: "node_ok 1 N n"
    by (auto simp: nodes_ok_Cons)
  from oks obtain ne0 where ne0: "node_at s e = Some ne0" and oke0: "node_ok 1 N ne0"
    by (auto simp: nodes_ok_Cons)
  have cn: "count_at s a = count n" using n by (rule count_at_Some)
  have ce: "count_at s e = count ne0" using ne0 by (rule count_at_Some)
  have ae: "a \<noteq> e" "a \<notin> set mid" "e \<notin> set mid" "a \<notin> set pre" "a \<notin> set post"
    "e \<notin> set pre" "e \<notin> set post"
    using dist by auto
  text \<open>the first node\<close>
  have lenn: "length (data n) = N" and cN: "count n \<le> N"
    and objs: "\<forall>k<count n. is_obj (data n ! k)"
    using okn by (auto simp: node_ok_iff)
  have nr: "\<forall>k. si \<le> k \<and> k < count n \<longrightarrow> data n ! k \<noteq> Raw"
  proof (intro allI impI)
    fix k assume "si \<le> k \<and> k < count n"
    then obtain v where "data n ! k = Obj v" using objs by (auto simp: is_obj_conv)
    then show "data n ! k \<noteq> Raw" by simp
  qed
  from destroy_loop_spec[of "count n" "data n" si 0] cN lenn nr
  obtain d where dl: "destroy_loop (data n) si (count n) 0 = Some (d, count n - si)"
    and lend: "length d = N" and dsame: "\<forall>k. k < si \<or> count n \<le> k \<longrightarrow> d ! k = data n ! k"
    by auto
  let ?n1 = "n\<lparr>data := d, count := si\<rparr>"
  let ?s1 = "set_node s a ?n1"
  have n1: "node_at ?s1 a = Some ?n1" using n by (simp add: node_at_set_node_same)
  have ch1: "chain ?s1 this (pre @ a # (mid @ e # post))" using ch n by (simp add: chain_set_node_payload)
  have pl1: "\<And>x. x \<noteq> a \<Longrightarrow> payload_at ?s1 x = payload_at s x"
    by (simp add: payload_at_set_node_other)
  have cur: "next' ?n1 = Some (hd (mid @ [e]))"
    using chain_next[OF ch1 n1] by (cases mid) auto
  define pre2 where "pre2 = (if si = 0 then pre else pre @ [a])"
  have "\<exists>s2. (if count ?n1 = 0 then map_option fst (remove_node ?s1 this a) else Some ?s1) = Some s2
      \<and> chain s2 this (pre2 @ mid @ e # post)
      \<and> (\<forall>x. x \<noteq> a \<longrightarrow> payload_at s2 x = payload_at s x)
      \<and> total_size (lists s2 this) = total_size (lists s this)
      \<and> (si \<noteq> 0 \<longrightarrow> payload_at s2 a = Some (si, d))"
  proof (cases "si = 0")
    case True
    have dt1: "\<forall>na. node_at ?s1 a = Some na \<longrightarrow> dtor_ok na"
      using n1 True by (auto simp: dtor_ok_def)
    from remove_node_wf[OF ch1 dt1]
    obtain s2 it where "remove_node ?s1 this a = Some (s2, it)"
      "chain s2 this (pre @ mid @ e # post)"
      "\<forall>x. x \<noteq> a \<longrightarrow> payload_at s2 x = payload_at ?s1 x"
      "total_size (lists s2 this) = total_size (lists ?s1 this)"
      by blast
    then show ?thesis using True pl1 by (auto simp: pre2_def)
  next
    case False
    have "payload_at ?s1 a = Some (si, d)" using n1 by (simp add: payload_at_def)
    then show ?thesis using False ch1 pl1 by (auto simp: pre2_def)
  qed
  then obtain s2 where
    st2: "(if count ?n1 = 0 then map_option fst (remove_node ?s1 this a) else Some ?s1) = Some s2"
    and ch2: "chain s2 this (pre2 @ mid @ e # post)"
    and pl2: "\<forall>x. x \<noteq> a \<longrightarrow> payload_at s2 x = payload_at s x"
    and ts2: "total_size (lists s2 this) = total_size (lists s this)"
    and pa2: "si \<noteq> 0 \<longrightarrow> payload_at s2 a = Some (si, d)"
    by blast
  text \<open>the nodes in between\<close>
  have oksmid: "nodes_ok 1 N s mid" using oks by (simp add: nodes_ok_Cons)
  have oks2mid: "nodes_ok 1 N s2 mid"
  proof (rule nodes_ok_payload[OF oksmid])
    fix x assume "x \<in> set mid"
    then have "x \<noteq> a" using ae by auto
    then show "payload_at s2 x = payload_at s x" using pl2 by simp
  qed
  have summid: "sum_list (map (count_at s2) mid) = sum_list (map (count_at s) mid)"
  proof (rule sum_counts_payload)
    fix x assume "x \<in> set mid"
    then have "x \<noteq> a" using ae by auto
    then show "payload_at s2 x = payload_at s x" using pl2 by simp
  qed
  let ?ec3 = "count n - si + sum_list (map (count_at s) mid)"
  obtain s3 where eb: "erase_between s2 this (Some (hd (mid @ [e]))) e (count n - si) = Some (s3, ?ec3)"
    and ch3: "chain s3 this (pre2 @ e # post)"
    and pl3: "\<forall>x. x \<notin> set mid \<longrightarrow> payload_at s3 x = payload_at s2 x"
    and ts3: "total_size (lists s3 this) = total_size (lists s2 this)"
  proof (rule that[of s2])
    show "erase_between s2 this (Some (hd (mid @ [e]))) e (count n - si) = Some (s2, ?ec3)"
      using mt by (simp add: erase_between_adjacent)
    show "chain s2 this (pre2 @ e # post)" using ch2 mt by simp
  qed simp_all
  text \<open>the last node\<close>
  have "payload_at s3 e = payload_at s e" using pl3 pl2 ae by simp
  from node_ok_payload[OF this ne0 oke0]
  obtain ne where ne: "node_at s3 e = Some ne" and oke: "node_ok 1 N ne"
    and cne: "count ne = count ne0" by blast
  have eic: "ei \<le> count ne" using le ce cne by simp
  from erase_slots[OF ne oke _ eic, of 0 ?ec3]
  obtain d1 d2 where dl2: "destroy_loop (data ne) 0 ei ?ec3 = Some (d1, ?ec3 + ei)"
    and nz: "normalize_node (set_node s3 e (ne\<lparr>data := d1\<rparr>)) e ei ei
             = Some (set_node s3 e (ne\<lparr>data := d2\<rparr>))"
    and ok': "node_ok 0 N (ne\<lparr>data := d2, count := count ne - ei\<rparr>)"
    by auto
  let ?ne' = "ne\<lparr>data := d2, count := count ne - ei\<rparr>"
  let ?s6 = "set_node s3 e ?ne'"
  let ?ec4 = "?ec3 + ei"
  let ?T = "total_size (lists s this)"
  let ?s7 = "set_list ?s6 this ((lists s3 this)\<lparr>total_size := ?T - ?ec4\<rparr>)"
  have u6: "upd_node (set_node s3 e (ne\<lparr>data := d2\<rparr>)) e (\<lambda>m. m\<lparr>count := size_minus (count m) ei\<rparr>)
      = Some ?s6"
    using ne eic by (simp add: upd_node_def node_at_set_node_same)
  have sum_as: "sum_list (map (count_at s) ?as) = sum_list (map (count_at s) pre) + count n
      + sum_list (map (count_at s) mid) + count ne0 + sum_list (map (count_at s) post)"
    using cn ce by simp
  have sic: "si \<le> count n" using lt cn by simp
  have ec4T: "?ec4 \<le> ?T" using ts sum_as sic eic cne by arith
  have n7: "node_at ?s7 e = Some ?ne'" using ne by (simp add: node_at_set_node_same)
  have ch6: "chain ?s6 this (pre2 @ e # post)" using ch3 ne by (simp add: chain_set_node_payload)
  have ch7: "chain ?s7 this (pre2 @ e # post)"
    using ch6 chain_set_total_size[of ?s6 this _ "pre2 @ e # post"] by simp
  have pl7: "\<And>x. x \<noteq> e \<Longrightarrow> x \<notin> set mid \<Longrightarrow> payload_at ?s7 x = payload_at s2 x"
    using pl3 by (simp add: payload_at_set_node_other)
  have pe7: "payload_at ?s7 e = Some (count ne - ei, d2)" using n7 by (simp add: payload_at_def)
  have ts7: "total_size (lists ?s7 this) = ?T - ?ec4" by simp
  define post2 where "post2 = (if count ne - ei = 0 then post else e # post)"
  have "\<exists>s' it. (if count ?ne' = 0 then remove_node ?s7 this e
                 else Some (?s7, \<lparr>current_node = Some e, index_in_node = 0, parent = this\<rparr>))
           = Some (s', it)
      \<and> chain s' this (pre2 @ post2)
      \<and> (\<forall>x. x \<noteq> e \<longrightarrow> payload_at s' x = payload_at ?s7 x)
      \<and> total_size (lists s' this) = ?T - ?ec4
      \<and> (count ne - ei \<noteq> 0 \<longrightarrow> payload_at s' e = Some (count ne - ei, d2))"
  proof (cases "count ne - ei = 0")
    case True
    have dt7: "\<forall>na. node_at ?s7 e = Some na \<longrightarrow> dtor_ok na"
      using n7 True by (auto simp: dtor_ok_def)
    from remove_node_wf[OF ch7 dt7]
    obtain s' it where "remove_node ?s7 this e = Some (s', it)"
      "chain s' this (pre2 @ post)"
      "\<forall>x. x \<noteq> e \<longrightarrow> payload_at s' x = payload_at ?s7 x"
      "total_size (lists s' this) = total_size (lists ?s7 this)"
      by blast
    then show ?thesis using True ts7 by (auto simp: post2_def)
  next
    case False
    then show ?thesis using ch7 pe7 ts7 by (auto simp: post2_def)
  qed
  then obtain s' it where
    fin: "(if count ?ne' = 0 then remove_node ?s7 this e
                 else Some (?s7, \<lparr>current_node = Some e, index_in_node = 0, parent = this\<rparr>))
           = Some (s', it)"
    and ch': "chain s' this (pre2 @ post2)"
    and pl': "\<forall>x. x \<noteq> e \<longrightarrow> payload_at s' x = payload_at ?s7 x"
    and ts': "total_size (lists s' this) = ?T - ?ec4"
    and pe': "count ne - ei \<noteq> 0 \<longrightarrow> payload_at s' e = Some (count ne - ei, d2)"
    by blast
  text \<open>the run\<close>
  have l6: "lists ?s6 this = lists s3 this" by simp
  have T3: "total_size (lists s3 this) = ?T" using ts3 ts2 by simp
  have run: "erase_across s this a si e ei = Some (s', it)"
    unfolding erase_across_def
    apply (simp only: n dl n1 cur st2 eb ne dl2 nz u6 bind.bind_lunit prod.case Let_def l6 T3)
    apply (simp only: size_minus_le[OF ec4T] n7 bind.bind_lunit fin)
    done
  text \<open>the invariant\<close>
  have pl_out: "\<And>x. x \<in> set (pre @ post) \<Longrightarrow> payload_at s' x = payload_at s x"
  proof -
    fix x assume "x \<in> set (pre @ post)"
    then have "x \<noteq> a" "x \<noteq> e" "x \<notin> set mid" using dist by auto
    then show "payload_at s' x = payload_at s x" using pl' pl7 pl2 by simp
  qed
  have pa': "si \<noteq> 0 \<longrightarrow> payload_at s' a = Some (si, d)"
    using pa2 pl' pl7 ae by simp
  have oks_out: "nodes_ok 1 N s' (pre @ post)"
  proof (rule nodes_ok_payload[OF _ pl_out])
    show "nodes_ok 1 N s (pre @ post)" using oks by (simp add: nodes_ok_Cons)
  qed
  have ok_a: "si \<noteq> 0 \<longrightarrow> nodes_ok 1 N s' [a]"
  proof
    assume si0: "si \<noteq> 0"
    then have "payload_at s' a = Some (si, d)" using pa' by simp
    moreover have "\<forall>k<si. is_obj (d ! k)" using dsame objs sic by auto
    ultimately have "\<exists>m. node_at s' a = Some m \<and> node_ok 1 N m"
      using si0 sic cN lend by (intro node_ok_of_payload) auto
    then show "nodes_ok 1 N s' [a]" by (simp add: nodes_ok_Cons)
  qed
  have ok_e: "count ne - ei \<noteq> 0 \<longrightarrow> nodes_ok 1 N s' [e]"
  proof
    assume r: "count ne - ei \<noteq> 0"
    then have "payload_at s' e = Some (count ne - ei, d2)" using pe' by simp
    moreover have "length d2 = N" "\<forall>k<count ne - ei. is_obj (d2 ! k)" "count ne - ei \<le> N"
      using ok' by (auto simp: node_ok_iff)
    ultimately have "\<exists>m. node_at s' e = Some m \<and> node_ok 1 N m"
      using r by (intro node_ok_of_payload) auto
    then show "nodes_ok 1 N s' [e]" by (simp add: nodes_ok_Cons)
  qed
  have oks': "nodes_ok 1 N s' (pre2 @ post2)"
    using oks_out ok_a ok_e by (auto simp: pre2_def post2_def nodes_ok_Cons)
  have c_pre: "sum_list (map (count_at s') pre) = sum_list (map (count_at s) pre)"
    using pl_out by (intro sum_counts_payload) auto
  have c_post: "sum_list (map (count_at s') post) = sum_list (map (count_at s) post)"
    using pl_out by (intro sum_counts_payload) auto
  have c_pre2: "sum_list (map (count_at s') pre2) = sum_list (map (count_at s) pre) + si"
    using c_pre pa' by (auto simp: pre2_def dest: count_at_of_payload)
  have c_post2: "sum_list (map (count_at s') post2) = (count ne - ei) + sum_list (map (count_at s) post)"
    using c_post pe' by (auto simp: post2_def dest: count_at_of_payload)
  have "sum_list (map (count_at s') (pre2 @ post2))
      = sum_list (map (count_at s) pre) + si + (count ne - ei) + sum_list (map (count_at s) post)"
    using c_pre2 c_post2 by simp
  moreover have "?T - ?ec4
      = sum_list (map (count_at s) pre) + si + (count ne - ei) + sum_list (map (count_at s) post)"
    using ts sum_as sic eic cne by arith
  ultimately have "total_size (lists s' this) = sum_list (map (count_at s') (pre2 @ post2))"
    using ts' by simp
  then have "wf_list N s' this (pre2 @ post2)" using ch' oks' by (simp only: wf_list_def simp_thms)
  then show ?thesis using run by blast
qed

text \<open>
  The range starts in one node and ends in a later one that is not its neighbour: the
  elements of the nodes in between are destroyed twice.
\<close>

lemma erase_across_twice:
  assumes wf: "wf_list N s this (pre @ a # mid @ e # post)"
    and lt: "si < count_at s a" and mne: "mid \<noteq> []"
  shows "erase_across s this a si e ei = None"
proof -
  let ?as = "pre @ a # mid @ e # post"
  note ch = wf_listD(1)[OF wf] and oks = wf_listD(2)[OF wf] and ts = wf_listD(3)[OF wf]
  have dist: "distinct ?as" using ch by (simp add: chain_def)
  from oks obtain n where n: "node_at s a = Some n" and okn: "node_ok 1 N n"
    by (auto simp: nodes_ok_Cons)
  from oks obtain ne0 where ne0: "node_at s e = Some ne0" and oke0: "node_ok 1 N ne0"
    by (auto simp: nodes_ok_Cons)
  have cn: "count_at s a = count n" using n by (rule count_at_Some)
  have ce: "count_at s e = count ne0" using ne0 by (rule count_at_Some)
  have ae: "a \<noteq> e" "a \<notin> set mid" "e \<notin> set mid" "a \<notin> set pre" "a \<notin> set post"
    "e \<notin> set pre" "e \<notin> set post"
    using dist by auto
  text \<open>the first node\<close>
  have lenn: "length (data n) = N" and cN: "count n \<le> N"
    and objs: "\<forall>k<count n. is_obj (data n ! k)"
    using okn by (auto simp: node_ok_iff)
  have nr: "\<forall>k. si \<le> k \<and> k < count n \<longrightarrow> data n ! k \<noteq> Raw"
  proof (intro allI impI)
    fix k assume "si \<le> k \<and> k < count n"
    then obtain v where "data n ! k = Obj v" using objs by (auto simp: is_obj_conv)
    then show "data n ! k \<noteq> Raw" by simp
  qed
  from destroy_loop_spec[of "count n" "data n" si 0] cN lenn nr
  obtain d where dl: "destroy_loop (data n) si (count n) 0 = Some (d, count n - si)"
    and lend: "length d = N" and dsame: "\<forall>k. k < si \<or> count n \<le> k \<longrightarrow> d ! k = data n ! k"
    by auto
  let ?n1 = "n\<lparr>data := d, count := si\<rparr>"
  let ?s1 = "set_node s a ?n1"
  have n1: "node_at ?s1 a = Some ?n1" using n by (simp add: node_at_set_node_same)
  have ch1: "chain ?s1 this (pre @ a # (mid @ e # post))" using ch n by (simp add: chain_set_node_payload)
  have pl1: "\<And>x. x \<noteq> a \<Longrightarrow> payload_at ?s1 x = payload_at s x"
    by (simp add: payload_at_set_node_other)
  have cur: "next' ?n1 = Some (hd (mid @ [e]))"
    using chain_next[OF ch1 n1] by (cases mid) auto
  define pre2 where "pre2 = (if si = 0 then pre else pre @ [a])"
  have "\<exists>s2. (if count ?n1 = 0 then map_option fst (remove_node ?s1 this a) else Some ?s1) = Some s2
      \<and> chain s2 this (pre2 @ mid @ e # post)
      \<and> (\<forall>x. x \<noteq> a \<longrightarrow> payload_at s2 x = payload_at s x)
      \<and> total_size (lists s2 this) = total_size (lists s this)
      \<and> (si \<noteq> 0 \<longrightarrow> payload_at s2 a = Some (si, d))"
  proof (cases "si = 0")
    case True
    have dt1: "\<forall>na. node_at ?s1 a = Some na \<longrightarrow> dtor_ok na"
      using n1 True by (auto simp: dtor_ok_def)
    from remove_node_wf[OF ch1 dt1]
    obtain s2 it where "remove_node ?s1 this a = Some (s2, it)"
      "chain s2 this (pre @ mid @ e # post)"
      "\<forall>x. x \<noteq> a \<longrightarrow> payload_at s2 x = payload_at ?s1 x"
      "total_size (lists s2 this) = total_size (lists ?s1 this)"
      by blast
    then show ?thesis using True pl1 by (auto simp: pre2_def)
  next
    case False
    have "payload_at ?s1 a = Some (si, d)" using n1 by (simp add: payload_at_def)
    then show ?thesis using False ch1 pl1 by (auto simp: pre2_def)
  qed
  then obtain s2 where
    st2: "(if count ?n1 = 0 then map_option fst (remove_node ?s1 this a) else Some ?s1) = Some s2"
    and ch2: "chain s2 this (pre2 @ mid @ e # post)"
    and pl2: "\<forall>x. x \<noteq> a \<longrightarrow> payload_at s2 x = payload_at s x"
    and ts2: "total_size (lists s2 this) = total_size (lists s this)"
    and pa2: "si \<noteq> 0 \<longrightarrow> payload_at s2 a = Some (si, d)"
    by blast
  obtain m mid' where mid: "mid = m # mid'" using mne by (cases mid) auto
  have m_ne: "m \<noteq> a" "m \<noteq> e" using dist mid by auto
  from oks mid obtain nm0 where nm0: "node_at s m = Some nm0" and okm0: "node_ok 1 N nm0"
    by (auto simp: nodes_ok_Cons)
  have "payload_at s2 m = payload_at s m" using pl2 m_ne by simp
  from node_ok_payload[OF this nm0 okm0]
  obtain nm where nm: "node_at s2 m = Some nm" and okm: "node_ok 1 N nm" by blast
  have eb: "erase_between s2 this (Some m) e (count n - si) = None"
    using nm okm m_ne(2) by (rule erase_between_twice)
  have cur': "next' ?n1 = Some m" using cur mid by simp
  show ?thesis
    unfolding erase_across_def
    by (simp only: n dl n1 cur' st2 eb bind.bind_lunit bind.bind_lzero prod.case Let_def)
qed

lemma pos_in_mid: "a \<notin> set pre \<Longrightarrow> pos_in (pre @ a # rest) a = length pre"
  by (induction pre) (auto simp: pos_in_def)

lemma length_takeWhile_less: "\<exists>x\<in>set xs. \<not> P x \<Longrightarrow> length (takeWhile P xs) < length xs"
  by (induction xs) auto

lemma pos_in_before: "e \<in> set pre \<Longrightarrow> pos_in (pre @ rest) e < length pre"
  by (simp add: pos_in_def takeWhile_append1 length_takeWhile_less)

lemma decomp_two:
  assumes "distinct as" "a \<in> set as" "e \<in> set as" "pos_in as a < pos_in as e"
  shows "\<exists>pre mid post. as = pre @ a # mid @ e # post"
proof -
  from assms(2) obtain pre rest where as: "as = pre @ a # rest" by (auto dest: split_list)
  then have a_pre: "a \<notin> set pre" using assms(1) by auto
  have pa: "pos_in as a = length pre" using as a_pre by (simp add: pos_in_mid)
  have "e \<noteq> a" using assms(4) by auto
  moreover have "e \<notin> set pre"
  proof
    assume "e \<in> set pre"
    then have "pos_in as e < length pre" unfolding as by (rule pos_in_before)
    then show False using assms(4) pa by simp
  qed
  ultimately have "e \<in> set rest" using assms(3) as by auto
  then obtain mid post where "rest = mid @ e # post" by (auto dest: split_list)
  then show ?thesis using as by auto
qed

lemma decomp_last:
  assumes "a \<in> set as" "a \<noteq> last as"
  shows "\<exists>pre mid. as = pre @ a # mid @ [last as]"
proof -
  from assms(1) obtain pre rest where as: "as = pre @ a # rest" by (auto dest: split_list)
  then have "rest \<noteq> []" using assms(2) by auto
  then have "rest = butlast rest @ [last rest]" "last as = last rest" using as by auto
  then show ?thesis using as by metis
qed

lemma count_le_sum: "a \<in> set as \<Longrightarrow> count_at s a \<le> sum_list (map (count_at s) as)"
  by (induction as) auto

lemma pos_in_two:
  assumes "distinct (pre @ a # mid @ e # post)"
  shows "pos_in (pre @ a # mid @ e # post) a = length pre"
    and "pos_in (pre @ a # mid @ e # post) e = Suc (length pre + length mid)"
proof -
  show "pos_in (pre @ a # mid @ e # post) a = length pre"
    using assms by (intro pos_in_mid) auto
  have "e \<notin> set (pre @ a # mid)" using assms by auto
  from pos_in_mid[OF this, of post]
  show "pos_in (pre @ a # mid @ e # post) e = Suc (length pre + length mid)" by simp
qed

text \<open>
  \<^verbatim>\<open>erase(first, last)\<close> on a valid non-empty range: the nodes and indices that the
  function works on, and the branch it takes.
\<close>

lemma erase_resolve:
  assumes wf: "wf_list N s this as" and vr: "valid_range s as first last'"
  shows "\<exists>a e ei. current_node first = Some a \<and> a \<in> set as
        \<and> index_in_node first < count_at s a
        \<and> e = (case current_node last' of None \<Rightarrow> last as | Some e \<Rightarrow> e)
        \<and> e \<in> set as \<and> ei \<le> count_at s e
        \<and> (if a = e
            then index_in_node first < ei \<and>
                 erase s this first last' = erase_in_node s this a (index_in_node first) e ei
            else pos_in as a < pos_in as e \<and>
                 erase s this first last' = erase_across s this a (index_in_node first) e ei)"
proof -
  note ch = wf_listD(1)[OF wf] and ts = wf_listD(3)[OF wf]
  have dist: "distinct as" using ch by (simp add: chain_def)
  from vr obtain a where fa: "current_node first = Some a" and a_in: "a \<in> set as"
    and si: "index_in_node first < count_at s a"
    by (auto simp: valid_range_def valid_iter_def split: option.splits)
  let ?si = "index_in_node first"
  have "1 \<le> count_at s a" using si by simp
  then have tz: "total_size (lists s this) \<noteq> 0" using count_le_sum[OF a_in, of s] ts by arith
  have ane: "as \<noteq> []" using a_in by auto
  have tl: "tail (lists s this) = Some (last as)" using wf_head_tail[OF wf ane] by simp
  show ?thesis
  proof (cases "current_node last'")
    case None
    let ?e = "last as"
    have e_in: "?e \<in> set as" using ane by simp
    obtain ne where ne: "node_at s ?e = Some ne" using ch e_in chain_live by blast
    have ce: "count_at s ?e = count ne" using ne by (rule count_at_Some)
    have neq: "\<not> iter_eq first last'" using fa None by (simp add: iter_eq_def)
    have e: "erase s this first last' =
        (if a = ?e then erase_in_node s this a ?si ?e (count ne)
         else erase_across s this a ?si ?e (count ne))"
      using neq tz None tl ne fa by (simp add: erase_def)
    have ord: "a \<noteq> ?e \<longrightarrow> pos_in as a < pos_in as ?e"
    proof
      assume "a \<noteq> ?e"
      from decomp_last[OF a_in this] obtain pre mid where as: "as = pre @ a # mid @ [?e]" by blast
      then have d: "distinct (pre @ a # mid @ ?e # [])" using dist by simp
      have "pos_in as a = length pre" "pos_in as ?e = Suc (length pre + length mid)"
        using pos_in_two[OF d] as by simp_all
      then show "pos_in as a < pos_in as ?e" by simp
    qed
    have "current_node first = Some a \<and> a \<in> set as \<and> ?si < count_at s a
        \<and> ?e = (case current_node last' of None \<Rightarrow> last as | Some e \<Rightarrow> e)
        \<and> ?e \<in> set as \<and> count ne \<le> count_at s ?e
        \<and> (if a = ?e
            then ?si < count ne \<and> erase s this first last' = erase_in_node s this a ?si ?e (count ne)
            else pos_in as a < pos_in as ?e \<and>
                 erase s this first last' = erase_across s this a ?si ?e (count ne))"
      using fa a_in si None e_in ce e ord by auto
    then show ?thesis by blast
  next
    case (Some e)
    from vr Some fa have e_in: "e \<in> set as" and ei: "index_in_node last' < count_at s e"
      and ord: "pos_in as a < pos_in as e \<or> (a = e \<and> ?si < index_in_node last')"
      by (auto simp: valid_range_def valid_iter_def)
    let ?ei = "index_in_node last'"
    have neq: "\<not> iter_eq first last'" using fa Some ord by (auto simp: iter_eq_def)
    have e: "erase s this first last' =
        (if a = e then erase_in_node s this a ?si e ?ei
         else erase_across s this a ?si e ?ei)"
      using neq tz Some fa by (simp add: erase_def)
    have "current_node first = Some a \<and> a \<in> set as \<and> ?si < count_at s a
        \<and> e = (case current_node last' of None \<Rightarrow> last as | Some e \<Rightarrow> e)
        \<and> e \<in> set as \<and> ?ei \<le> count_at s e
        \<and> (if a = e
            then ?si < ?ei \<and> erase s this first last' = erase_in_node s this a ?si e ?ei
            else pos_in as a < pos_in as e \<and>
                 erase s this first last' = erase_across s this a ?si e ?ei)"
      using fa a_in si Some e_in ei e ord by auto
    then show ?thesis by blast
  qed
qed

text \<open>A valid range that touches at most two nodes is erased, and the invariant holds after.\<close>

lemma erase_wf:
  assumes wf: "wf_list N s this as" and vr: "valid_range s as first last'"
    and adj: "adjacent_range as first last'"
  shows "\<exists>s' it as'. erase s this first last' = Some (s', it) \<and> wf_list N s' this as'"
proof -
  have dist: "distinct as" using wf_listD(1)[OF wf] by (simp add: chain_def)
  from erase_resolve[OF wf vr] obtain a e ei where
    fa: "current_node first = Some a" and a_in: "a \<in> set as"
    and si: "index_in_node first < count_at s a"
    and e: "e = (case current_node last' of None \<Rightarrow> last as | Some e \<Rightarrow> e)"
    and e_in: "e \<in> set as" and ei: "ei \<le> count_at s e"
    and br: "if a = e
            then index_in_node first < ei \<and>
                 erase s this first last' = erase_in_node s this a (index_in_node first) e ei
            else pos_in as a < pos_in as e \<and>
                 erase s this first last' = erase_across s this a (index_in_node first) e ei"
    by blast
  show ?thesis
  proof (cases "a = e")
    case True
    from a_in obtain pre post where as: "as = pre @ a # post" by (auto dest: split_list)
    from br True have lt: "index_in_node first < ei"
      and r: "erase s this first last' = erase_in_node s this a (index_in_node first) a ei"
      by simp_all
    from erase_in_node_wf[OF wf[unfolded as] lt] ei True
    show ?thesis using r by simp
  next
    case False
    with br have ord: "pos_in as a < pos_in as e"
      and r: "erase s this first last' = erase_across s this a (index_in_node first) e ei"
      by simp_all
    from decomp_two[OF dist a_in e_in ord]
    obtain pre mid post where as: "as = pre @ a # mid @ e # post" by blast
    have "pos_in as a = length pre" "pos_in as e = Suc (length pre + length mid)"
      using pos_in_two[OF dist[unfolded as]] as by simp_all
    moreover have "pos_in as e \<le> pos_in as a + 1"
      using adj fa e by (simp add: adjacent_range_def)
    ultimately have mt: "mid = []" by simp
    from erase_across_wf[OF wf[unfolded as] si ei mt]
    show ?thesis using r by simp
  qed
qed

text \<open>
  A valid range with a node between its first and its last node: the elements of that
  node are destroyed twice, once by the loop of \<^verbatim>\<open>erase\<close> and once by \<^verbatim>\<open>~Node\<close>.
\<close>

lemma erase_twice:
  assumes wf: "wf_list N s this as" and vr: "valid_range s as first last'"
    and nadj: "\<not> adjacent_range as first last'"
  shows "erase s this first last' = None"
proof -
  have dist: "distinct as" using wf_listD(1)[OF wf] by (simp add: chain_def)
  from erase_resolve[OF wf vr] obtain a e ei where
    fa: "current_node first = Some a" and a_in: "a \<in> set as"
    and si: "index_in_node first < count_at s a"
    and e: "e = (case current_node last' of None \<Rightarrow> last as | Some e \<Rightarrow> e)"
    and e_in: "e \<in> set as" and ei: "ei \<le> count_at s e"
    and br: "if a = e
            then index_in_node first < ei \<and>
                 erase s this first last' = erase_in_node s this a (index_in_node first) e ei
            else pos_in as a < pos_in as e \<and>
                 erase s this first last' = erase_across s this a (index_in_node first) e ei"
    by blast
  have far: "pos_in as a + 1 < pos_in as e"
    using nadj fa e by (simp add: adjacent_range_def)
  then have ne: "a \<noteq> e" by auto
  with br have ord: "pos_in as a < pos_in as e"
    and r: "erase s this first last' = erase_across s this a (index_in_node first) e ei"
    by simp_all
  from decomp_two[OF dist a_in e_in ord]
  obtain pre mid post where as: "as = pre @ a # mid @ e # post" by blast
  have "pos_in as a = length pre" "pos_in as e = Suc (length pre + length mid)"
    using pos_in_two[OF dist[unfolded as]] as by simp_all
  then have mne: "mid \<noteq> []" using far by auto
  from erase_across_twice[OF wf[unfolded as] si mne] show ?thesis using r by simp
qed

text \<open>So whenever \<^verbatim>\<open>erase(first, last)\<close> returns, the invariant holds after.\<close>

lemma erase_returns_wf:
  assumes wf: "wf_list N s this as" and vr: "valid_range s as first last'"
    and r: "erase s this first last' = Some (s', it)"
  shows "\<exists>as'. wf_list N s' this as'"
proof (cases "adjacent_range as first last'")
  case True
  from erase_wf[OF wf vr True] r show ?thesis by auto
next
  case False
  from erase_twice[OF wf vr False] r show ?thesis by simp
qed

text \<open>
  With \<^verbatim>\<open>NodeMaxSize = 2\<close>, \<^verbatim>\<open>push_back\<close> of 1, 2, 3, 4 gives the nodes [1], [2], [3, 4].
  \<^verbatim>\<open>erase(begin(), end())\<close> destroys the 2 of the middle node twice; \<^verbatim>\<open>clear()\<close> destroys
  every element once.
\<close>

lemma erase_three_nodes:
  "(push_back_range 2 (default_construct initial_state 0) 0 1 4
      \<bind> (\<lambda>s. Some (heap s, elements s 0)))
     = Some ([Some \<lparr>count = 1, next' = Some 1, prev = None, data = [Obj 1, Moved_from]\<rparr>,
              Some \<lparr>count = 1, next' = Some 2, prev = Some 0, data = [Obj 2, Moved_from]\<rparr>,
              Some \<lparr>count = 2, next' = None, prev = Some 1, data = [Obj 3, Obj 4]\<rparr>],
             Some [1, 2, 3, 4])
   \<and> (push_back_range 2 (default_construct initial_state 0) 0 1 4
      \<bind> (\<lambda>s. erase s 0 (begin' s 0) (end' 0))) = None
   \<and> (push_back_range 2 (default_construct initial_state 0) 0 1 4
      \<bind> (\<lambda>s. clear s 0) \<bind> (\<lambda>s. Some (heap s, lists s 0)))
     = Some ([None, None, None], \<lparr>head = None, tail = None, total_size = 0\<rparr>)"
  by code_simp

text \<open>\<^verbatim>\<open>erase(pos)\<close>\<close>

lemma incr_valid:
  assumes wf: "wf_list N s this as" and v: "valid_iter s as pos"
  shows "\<exists>pos_end. incr s pos = Some pos_end \<and> valid_range s as pos pos_end
           \<and> adjacent_range as pos pos_end"
proof -
  note ch = wf_listD(1)[OF wf]
  have dist: "distinct as" using ch by (simp add: chain_def)
  from v obtain a where pa: "current_node pos = Some a" and a_in: "a \<in> set as"
    and idx: "index_in_node pos < count_at s a"
    by (auto simp: valid_iter_def split: option.splits)
  obtain n where n: "node_at s a = Some n" using ch a_in chain_live by blast
  have cn: "count_at s a = count n" using n by (rule count_at_Some)
  have c1: "1 \<le> count n" using idx cn by simp
  show ?thesis
  proof (cases "index_in_node pos < count n - 1")
    case True
    let ?pe = "pos\<lparr>index_in_node := index_in_node pos + 1\<rparr>"
    have "incr s pos = Some ?pe" using pa n c1 True by (simp add: incr_def)
    moreover have "valid_range s as pos ?pe"
      using v pa a_in True cn by (simp add: valid_range_def valid_iter_def)
    moreover have "adjacent_range as pos ?pe" using pa by (simp add: adjacent_range_def)
    ultimately show ?thesis by blast
  next
    case False
    from a_in obtain pre rest where as: "as = pre @ a # rest" by (auto dest: split_list)
    have nx: "next' n = (case rest of [] \<Rightarrow> None | q # _ \<Rightarrow> Some q)"
      using chain_next[OF ch[unfolded as] n] .
    let ?pe = "pos\<lparr>current_node := next' n, index_in_node := 0\<rparr>"
    have i: "incr s pos = Some ?pe" using pa n c1 False by (simp add: incr_def)
    have "valid_range s as pos ?pe \<and> adjacent_range as pos ?pe"
    proof (cases rest)
      case Nil
      then have "last as = a" using as by simp
      then show ?thesis using v nx Nil pa by (simp add: valid_range_def adjacent_range_def)
    next
      case (Cons q rest')
      have q_in: "q \<in> set as" using as Cons by simp
      have "1 \<le> count_at s q" using wf_count_ge1[OF wf q_in] by simp
      moreover have "pos_in as a = length pre" using as dist by (simp add: pos_in_mid)
      moreover have "pos_in as q = length (pre @ [a])"
        using pos_in_mid[of q "pre @ [a]" rest'] as Cons dist by auto
      ultimately show ?thesis
        using v nx Cons pa q_in by (simp add: valid_range_def valid_iter_def adjacent_range_def)
    qed
    then show ?thesis using i by blast
  qed
qed

lemma erase1_wf:
  assumes wf: "wf_list N s this as" and v: "valid_iter s as pos"
  shows "\<exists>s' it as'. erase1 s this pos = Some (s', it) \<and> wf_list N s' this as'"
proof -
  from incr_valid[OF wf v] obtain pos_end where
    "incr s pos = Some pos_end" "valid_range s as pos pos_end" "adjacent_range as pos pos_end"
    by blast
  then show ?thesis using erase_wf[OF wf, of pos pos_end] by (simp add: erase1_def)
qed

lemma erase1_end:
  "current_node pos = None \<Longrightarrow>
   erase1 s this pos = Some (s, \<lparr>current_node = None, index_in_node = index_in_node pos, parent = this\<rparr>)"
  by (simp add: erase1_def incr_def erase_def iter_eq_def)

lemma pop_front_wf:
  assumes wf: "wf_list N s this as"
  shows "\<exists>s' as'. pop_front s this = Some s' \<and> wf_list N s' this as'"
proof (cases "as = []")
  case True
  then have "head (lists s this) = None" using wf by (simp add: wf_empty default_list_def)
  then have "pop_front s this = Some s"
    by (simp add: pop_front_def begin'_def erase1_end)
  then show ?thesis using wf by blast
next
  case False
  have hd: "head (lists s this) = Some (hd as)" using wf_head_tail[OF wf False] by simp
  have "1 \<le> count_at s (hd as)" using wf_count_ge1[OF wf, of "hd as"] False by simp
  then have "valid_iter s as (begin' s this)"
    using hd False by (simp add: valid_iter_def begin'_def)
  from erase1_wf[OF wf this] show ?thesis by (auto simp: pop_front_def)
qed

lemma pop_back_wf:
  assumes wf: "wf_list N s this as"
  shows "\<exists>s' as'. pop_back s this = Some s' \<and> wf_list N s' this as'"
proof (cases "as = []")
  case True
  then have "tail (lists s this) = None" using wf by (simp add: wf_empty default_list_def)
  then have "pop_back s this = Some s"
    by (simp add: pop_back_def decr_def end'_def erase1_end)
  then show ?thesis using wf by blast
next
  case False
  have tl: "tail (lists s this) = Some (last as)" using wf_head_tail[OF wf False] by simp
  have l_in: "last as \<in> set as" using False by simp
  obtain n where n: "node_at s (last as) = Some n"
    using wf_listD(1)[OF wf] l_in chain_live by blast
  have c1: "1 \<le> count n" using wf_count_ge1[OF wf l_in] n by (simp add: count_at_def)
  let ?it = "\<lparr>current_node = Some (last as), index_in_node = count n - 1, parent = this\<rparr>"
  have d: "decr s (end' this) = Some ?it"
    using tl n c1 by (simp add: decr_def end'_def)
  have "valid_iter s as ?it" using l_in n c1 by (simp add: valid_iter_def count_at_def)
  from erase1_wf[OF wf this] show ?thesis using d by (auto simp: pop_back_def)
qed

text \<open>\<^verbatim>\<open>clear()\<close>\<close>

lemma clear_loop_chain:
  "dseg s pr p as None \<Longrightarrow> distinct as \<Longrightarrow> nodes_ok lo N s as \<Longrightarrow>
   \<exists>s'. clear_loop s p = Some s' \<and> lists s' = lists s \<and>
        (\<forall>x. x \<notin> set as \<longrightarrow> node_at s' x = node_at s x)"
proof (induction as arbitrary: s pr p)
  case Nil
  then show ?case by (subst clear_loop.simps) simp
next
  case (Cons a as)
  from Cons.prems(1) obtain nx where p: "p = Some a" and la: "links_at s a = Some (nx, pr)"
    and rest: "dseg s (Some a) nx as None" by auto
  from la obtain n where n: "node_at s a = Some n" and nx: "next' n = nx"
    by (auto simp: links_at_def)
  have dn: "dtor_ok n" using Cons.prems(3) n by (auto simp: nodes_ok_iff dtor_ok_node_ok)
  let ?s1 = "s\<lparr>heap := (heap s)[a := None]\<rparr>"
  have oks1: "nodes_ok lo N ?s1 as"
    using Cons.prems(2,3) by (auto simp: nodes_ok_iff node_at_free)
  have "dseg ?s1 (Some a) nx as None = dseg s (Some a) nx as None"
  proof (rule dseg_links_cong)
    fix x assume "x \<in> set as"
    then have "x \<noteq> a" using Cons.prems(2) by auto
    then show "links_at ?s1 x = links_at s x" by (simp add: links_at_free)
  qed
  then have "dseg ?s1 (Some a) nx as None" using rest by simp
  from Cons.IH[OF this _ oks1] Cons.prems(2)
  obtain s' where r: "clear_loop ?s1 nx = Some s'" "lists s' = lists ?s1"
    "\<forall>x. x \<notin> set as \<longrightarrow> node_at s' x = node_at ?s1 x" by auto
  have "clear_loop s p = Some s'"
    using p n nx r(1) by (subst clear_loop.simps) (simp add: destroy_node_eq[OF _ dn])
  moreover have "\<forall>x. x \<notin> set (a # as) \<longrightarrow> node_at s' x = node_at s x"
    using r(3) by (simp add: node_at_free)
  ultimately show ?case using r(2) by simp
qed

lemma clear_wf:
  assumes wf: "wf_list N s this as"
  shows "\<exists>s'. clear s this = Some s' \<and> wf_list N s' this []
         \<and> (\<forall>x. x \<notin> set as \<longrightarrow> node_at s' x = node_at s x)
         \<and> (\<forall>c. c \<noteq> this \<longrightarrow> lists s' c = lists s c)"
proof -
  from wf_listD(1)[OF wf] have "dseg s None (head (lists s this)) as None" "distinct as"
    by (auto simp: chain_def)
  from clear_loop_chain[OF this wf_listD(2)[OF wf]]
  obtain s1 where "clear_loop s (head (lists s this)) = Some s1" "lists s1 = lists s"
    "\<forall>x. x \<notin> set as \<longrightarrow> node_at s1 x = node_at s x" by blast
  then show ?thesis
    by (simp add: clear_def wf_empty default_list_def)
qed

section \<open>The element sequence of a well-formed container\<close>

lemma vals_of_objs:
  "list_all is_obj xs \<Longrightarrow> length (vals_of xs) = length xs \<and> (\<forall>i<length xs. xs ! i = Obj (vals_of xs ! i))"
proof (induction xs)
  case Nil
  then show ?case by simp
next
  case (Cons x xs)
  then obtain v where "x = Obj v" by (auto simp: is_obj_conv)
  then show ?case using Cons by (auto simp: nth_Cons')
qed

lemma vals_of_drop_Cons:
  "i < length xs \<Longrightarrow> xs ! i = Obj v \<Longrightarrow> vals_of (drop i xs) = v # vals_of (drop (Suc i) xs)"
  by (simp flip: Cons_nth_drop_Suc)

lemma iter_eq_end: "iter_eq it (end' this) \<longleftrightarrow> current_node it = None \<and> index_in_node it = 0"
  by (simp add: iter_eq_def end'_def)

text \<open>The walk through one node.\<close>

lemma iterate_node:
  assumes n: "node_at s a = Some n" and ok: "node_ok 1 N n"
    and rest: "iterate s this \<lparr>current_node = next' n, index_in_node = 0, parent = q\<rparr> = Some ys"
  shows "i < count n \<Longrightarrow>
    iterate s this \<lparr>current_node = Some a, index_in_node = i, parent = q\<rparr>
      = Some (vals_of (drop i (take (count n) (data n))) @ ys)"
proof (induction "count n - i" arbitrary: i)
  case 0
  then show ?case by simp
next
  case (Suc k)
  from ok have len: "count n \<le> length (data n)" and objs: "\<forall>j<count n. is_obj (data n ! j)"
    and c1: "1 \<le> count n"
    by (auto simp: node_ok_iff)
  from objs Suc.prems obtain v where v: "data n ! i = Obj v" by (auto simp: is_obj_conv)
  let ?xs = "take (count n) (data n)"
  have il: "i < length ?xs" using Suc.prems len by simp
  have xi: "?xs ! i = Obj v" using v Suc.prems by simp
  have dr: "vals_of (drop i ?xs) = v # vals_of (drop (Suc i) ?xs)"
    using vals_of_drop_Cons[OF il xi] .
  let ?it = "\<lparr>current_node = Some a, index_in_node = i, parent = q\<rparr>"
  have de: "deref s ?it = Some v" using n v Suc.prems len by (simp add: deref_def elem_def)
  show ?case
  proof (cases "i < count n - 1")
    case True
    have inc: "incr s ?it = Some \<lparr>current_node = Some a, index_in_node = Suc i, parent = q\<rparr>"
      using n True c1 by (simp add: incr_def size_minus_def)
    have "k = count n - Suc i" using Suc.hyps(2) by simp
    from Suc.hyps(1)[OF this] True
    have "iterate s this \<lparr>current_node = Some a, index_in_node = Suc i, parent = q\<rparr>
      = Some (vals_of (drop (Suc i) ?xs) @ ys)" by simp
    then show ?thesis using de inc dr
      by (subst iterate.simps) (simp add: iter_eq_end)
  next
    case False
    then have last: "Suc i = count n" using Suc.prems by simp
    have inc: "incr s ?it = Some \<lparr>current_node = next' n, index_in_node = 0, parent = q\<rparr>"
      using n False c1 by (simp add: incr_def size_minus_def)
    have "drop (Suc i) ?xs = []" using last by simp
    then show ?thesis using de inc dr rest
      by (subst iterate.simps) (simp add: iter_eq_end)
  qed
qed

text \<open>The walk through the chain.\<close>

lemma iterate_dseg:
  "dseg s pr p as None \<Longrightarrow> nodes_ok 1 N s as \<Longrightarrow>
   iterate s this \<lparr>current_node = p, index_in_node = 0, parent = q\<rparr> = Some (contents s as)"
proof (induction as arbitrary: pr p)
  case Nil
  then show ?case by (subst iterate.simps) (simp add: iter_eq_end contents_def)
next
  case (Cons a as)
  from Cons.prems(1) obtain nx where p: "p = Some a" and la: "links_at s a = Some (nx, pr)"
    and rest: "dseg s (Some a) nx as None" by auto
  from Cons.prems(2) obtain n where n: "node_at s a = Some n" and ok: "node_ok 1 N n"
    and oks: "nodes_ok 1 N s as" by (auto simp: nodes_ok_Cons)
  have nx: "next' n = nx" using la n by (simp add: links_at_def)
  from Cons.IH[OF rest oks]
  have r: "iterate s this \<lparr>current_node = next' n, index_in_node = 0, parent = q\<rparr>
      = Some (contents s as)" using nx by simp
  have "0 < count n" using ok by (simp add: node_ok_iff)
  from iterate_node[OF n ok r this]
  show ?case using p n by (simp add: contents_def node_vals_def)
qed

lemma elements_wf: "wf_list N s this as \<Longrightarrow> elements s this = Some (contents s as)"
  unfolding elements_def begin'_def
  by (rule iterate_dseg[where pr = None]) (auto simp: wf_list_def chain_def)

lemma node_vals_props:
  assumes n: "node_at s a = Some n" and ok: "node_ok 1 N n"
  shows "node_vals s a \<noteq> []" "elem n 0 = Some (hd (node_vals s a))"
    "elem n (count n - 1) = Some (last (node_vals s a))"
proof -
  let ?xs = "take (count n) (data n)"
  from ok have len: "count n \<le> length (data n)" and c1: "1 \<le> count n"
    and all: "list_all is_obj ?xs"
    by (auto simp: node_ok_def)
  from vals_of_objs[OF all] len
  have l: "length (vals_of ?xs) = count n" and nth: "\<forall>i<count n. data n ! i = Obj (vals_of ?xs ! i)"
    by auto
  have nv: "node_vals s a = vals_of ?xs" using n by (simp add: node_vals_def)
  show ne: "node_vals s a \<noteq> []" using l c1 nv by auto
  have dl: "0 < length (data n)" using c1 len by linarith
  show "elem n 0 = Some (hd (node_vals s a))"
    using nth c1 dl ne nv by (simp add: elem_def hd_conv_nth)
  show "elem n (count n - 1) = Some (last (node_vals s a))"
    using nth c1 len ne nv l by (simp add: elem_def last_conv_nth)
qed

lemma wf_empty_iff: "wf_list N s this as \<Longrightarrow> empty s this \<longleftrightarrow> as = []"
proof
  assume wf: "wf_list N s this as" and e: "empty s this"
  show "as = []"
  proof (rule ccontr)
    assume "as \<noteq> []"
    then have "hd as \<in> set as" by simp
    have "total_size (lists s this) = 0" using e by (simp add: empty_def)
    with wf_count_ge1[OF wf \<open>hd as \<in> set as\<close>] count_le_sum[OF \<open>hd as \<in> set as\<close>, of s]
      wf_listD(3)[OF wf]
    show False by arith
  qed
next
  assume "wf_list N s this as" "as = []"
  then show "empty s this" by (simp add: wf_empty default_list_def empty_def)
qed

section \<open>Splitting a full node, and moving a container\<close>

lemma node_at_heap_cong: "heap s' = heap s \<Longrightarrow> node_at s' = node_at s"
  by (rule ext) (simp add: node_at_def)

lemma wf_list_transfer:
  assumes h: "heap s' = heap s" and l: "lists s' b = lists s a"
  shows "wf_list N s' b as = wf_list N s a as"
proof -
  note na = node_at_heap_cong[OF h]
  have "dseg s' None (head (lists s a)) as None = dseg s None (head (lists s a)) as None"
    by (rule dseg_links_cong) (simp add: links_at_def na)
  moreover have "count_at s' = count_at s" by (rule ext) (simp add: count_at_def na)
  moreover have "nodes_ok 1 N s' as = nodes_ok 1 N s as" by (simp add: nodes_ok_def na)
  ultimately show ?thesis by (simp add: wf_list_def chain_def l)
qed

lemma contents_heap_cong:
  assumes h: "heap s' = heap s"
  shows "contents s' as = contents s as"
proof -
  note na = node_at_heap_cong[OF h]
  have "node_vals s' = node_vals s" by (rule ext) (simp add: node_vals_def na)
  then show ?thesis by (simp add: contents_def)
qed

lemma decomp_unique:
  assumes d: "distinct (pre @ a # post)" and e: "pre @ a # post = pre' @ a # post'"
  shows "pre' = pre \<and> post' = post"
proof -
  have 1: "a \<notin> set pre" and 2: "a \<notin> set post" using d by auto
  show ?thesis using append_Cons_eq_iff[OF 1 2, of pre' post'] e by simp
qed

text \<open>
  An insertion into a full node when \<^verbatim>\<open>NodeMaxSize >= 2\<close>: the split leaves
  \<^verbatim>\<open>NodeMaxSize - NodeMaxSize / 2\<close> elements in the node and moves \<^verbatim>\<open>NodeMaxSize / 2\<close> into
  one new node linked right after it; the insertion then returns, the heap has grown by
  that one node, and no count exceeds \<^verbatim>\<open>NodeMaxSize\<close>.
\<close>

lemma full_node_is_split:
  assumes N: "2 \<le> N" and wf: "wf_list N s this (pre @ a # post)"
    and full: "count_at s a = N" and ptr: "ptr \<le> N"
  shows "\<exists>s1 node ptr'. split_node N s this a ptr = Some (s1, node, ptr')
           \<and> chain s1 this (pre @ a # length (heap s) # post)
           \<and> count_at s1 a = N - N div 2 \<and> count_at s1 (length (heap s)) = N div 2
           \<and> length (heap s1) = Suc (length (heap s))"
    and "\<exists>s' it. emplace_into_node N s this (Some a) ptr (Builds v) = Some (s', Returns it)
           \<and> wf_list N s' this (pre @ a # length (heap s) # post)
           \<and> length (heap s') = Suc (length (heap s))
           \<and> (\<forall>x\<in>set (pre @ a # length (heap s) # post). count_at s' x \<le> N)"
proof -
  note ch = wf_listD(1)[OF wf] and oks = wf_listD(2)[OF wf] and ts = wf_listD(3)[OF wf]
  obtain n where n: "node_at s a = Some n" using ch chain_live by fastforce
  have cn: "count n = N" using full n by (simp add: count_at_def)
  from split_node_wf[OF ch oks n cn, of ptr]
  obtain s1 where "split_node N s this a ptr =
            Some (s1, if ptr > N - N div 2 then (length (heap s), ptr - (N - N div 2)) else (a, ptr))"
    "chain s1 this (pre @ a # length (heap s) # post)"
    "count_at s1 a = N - N div 2" "count_at s1 (length (heap s)) = N div 2"
    "length (heap s1) = Suc (length (heap s))"
    by blast
  then show "\<exists>s1 node ptr'. split_node N s this a ptr = Some (s1, node, ptr')
           \<and> chain s1 this (pre @ a # length (heap s) # post)
           \<and> count_at s1 a = N - N div 2 \<and> count_at s1 (length (heap s)) = N div 2
           \<and> length (heap s1) = Suc (length (heap s))"
    by (cases "ptr > N - N div 2") (simp_all del: split_paired_Ex)
  have dist: "distinct (pre @ a # post)" using ch by (simp add: chain_def)
  have a_in: "a \<in> set (pre @ a # post)" by simp
  have ge: "\<forall>b\<in>set (pre @ a # post). b \<noteq> a \<longrightarrow> 1 \<le> count_at s b"
    using wf_count_ge1[OF wf] by blast
  have N2: "count_at s a = N \<longrightarrow> 2 \<le> N" using N by simp
  have ptr': "ptr \<le> count_at s a" using ptr full by simp
  from emplace_into_node_wf[OF N2 ch wf_nodes_ok0[OF wf] a_in ge ts ptr', of v]
  obtain s' it as' where r0:
    "emplace_into_node N s this (Some a) ptr (Builds v) = Some (s', Returns it)"
    "wf_list N s' this as'"
    and imp: "count_at s a = N \<longrightarrow> length (heap s') = Suc (length (heap s)) \<and>
              (\<exists>pre' post'. pre @ a # post = pre' @ a # post' \<and> as' = pre' @ a # length (heap s) # post')"
    by blast
  from imp full obtain pre' post' where r:
    "emplace_into_node N s this (Some a) ptr (Builds v) = Some (s', Returns it)"
    "wf_list N s' this as'" "length (heap s') = Suc (length (heap s))"
    "pre @ a # post = pre' @ a # post'" "as' = pre' @ a # length (heap s) # post'"
    using r0 by blast
  have "pre' = pre \<and> post' = post"
    using decomp_unique[OF dist r(4)] .
  then have wf': "wf_list N s' this (pre @ a # length (heap s) # post)" using r(2,5) by simp
  then have "\<forall>x\<in>set (pre @ a # length (heap s) # post). count_at s' x \<le> N"
    using wf_count_ge1 by blast
  then show "\<exists>s' it. emplace_into_node N s this (Some a) ptr (Builds v) = Some (s', Returns it)
           \<and> wf_list N s' this (pre @ a # length (heap s) # post)
           \<and> length (heap s') = Suc (length (heap s))
           \<and> (\<forall>x\<in>set (pre @ a # length (heap s) # post). count_at s' x \<le> N)"
    using r(1,3) wf' by blast
qed

section \<open>Operations on a container that satisfies the invariant\<close>

lemma wf_two_elements: "wf_list 4 two_elements 0 [0]"
  by (simp add: wf_list_def chain_def nodes_ok_def node_ok_def two_elements_def node_at_def
      links_at_def count_at_def)

lemma forget_Returns: "forget r = Some (s', Returns ()) \<longleftrightarrow> (\<exists>x. r = Some (s', Returns x))"
  by (cases r) (auto simp: forget_def split: outcome.splits)

lemma returned_Returns: "returned r = Some (s', Returns ()) \<longleftrightarrow> r = Some s'"
  by (cases r) (auto simp: returned_def)

lemma emplace_back_Returns:
  "emplace_back N s this args = Some (s', Returns ()) \<longleftrightarrow>
     (\<exists>it. emplace N s this (end' this) args = Some (s', Returns it))"
  by (auto simp: emplace_back_def split: option.splits outcome.splits)

lemma push_front_Returns:
  "push_front N s this args = Some (s', Returns ()) \<longleftrightarrow>
     (\<exists>it. emplace N s this (begin' s this) args = Some (s', Returns it))"
  by (auto simp: push_front_def split: option.splits outcome.splits)

lemma valid_pos_end: "valid_pos s as (end' this)"
  by (simp add: valid_pos_def end'_def)

lemma valid_pos_begin: "wf_list N s this as \<Longrightarrow> valid_pos s as (begin' s this)"
proof (cases "as = []")
  case True
  assume "wf_list N s this as"
  then show ?thesis using True by (simp add: valid_pos_def begin'_def wf_empty default_list_def)
next
  case False
  assume wf: "wf_list N s this as"
  have "head (lists s this) = Some (hd as)" using wf_head_tail[OF wf False] by simp
  moreover have "1 \<le> count_at s (hd as)" using wf_count_ge1[OF wf, of "hd as"] False by simp
  ultimately show ?thesis using False by (simp add: valid_pos_def valid_iter_def begin'_def)
qed

lemma call_wf:
  assumes wf: "wf_list N s this as" and v: "valid_call s as op"
    and r: "call N s this op = Some (s', Returns ())"
  shows "\<exists>as'. wf_list N s' this as'"
proof (cases op)
  case (Emplace pos args)
  then show ?thesis using emplace_wf[OF wf] v r by (auto simp: forget_Returns)
next
  case (Insert pos val)
  then show ?thesis using emplace_wf[OF wf] v r by (auto simp: forget_Returns insert'_def)
next
  case (Emplace_back args)
  then show ?thesis using emplace_wf[OF wf valid_pos_end] r by (auto simp: emplace_back_Returns)
next
  case (Push_back val)
  then show ?thesis using emplace_wf[OF wf valid_pos_end] r
    by (auto simp: emplace_back_Returns push_back_def)
next
  case (Push_front val)
  then show ?thesis using emplace_wf[OF wf valid_pos_begin[OF wf]] r
    by (auto simp: push_front_Returns)
next
  case (Erase first last')
  show ?thesis
  proof (cases "iter_eq first last'")
    case True
    then have "s' = s" using r Erase by (auto simp: returned_Returns erase_def)
    then show ?thesis using wf by blast
  next
    case False
    then have "valid_range s as first last'" using v Erase by simp
    from erase_returns_wf[OF wf this] r Erase show ?thesis
      by (cases "erase s this first last'") (auto simp: returned_Returns)
  qed
next
  case (Erase_at pos)
  then have "valid_iter s as pos" using v by simp
  from erase1_wf[OF wf this] r Erase_at show ?thesis by (auto simp: returned_Returns)
next
  case Pop_front
  from pop_front_wf[OF wf] r Pop_front show ?thesis by (auto simp: returned_Returns)
next
  case Pop_back
  from pop_back_wf[OF wf] r Pop_back show ?thesis by (auto simp: returned_Returns)
next
  case Clear
  from clear_wf[OF wf] r Clear show ?thesis by (auto simp: returned_Returns)
qed

lemma call_pop_front_two: "call 4 two_elements 0 Pop_front = Some (one_element, Returns ())"
  by (simp add: returned_def pop_front_def erase1_def begin'_def two_elements_def incr_def
      node_at_def size_minus_def erase_def iter_eq_def erase_in_node_def
      destroy_loop.simps destroy_def normalize_node_def normalize_loop.simps move_out_def
      construct_def set_node_def upd_node_def set_list_def Let_def one_element_def)

lemma wf_initial_state: "wf_list N initial_state this []"
  by (simp add: wf_empty initial_state_def)

lemma wf_default_construct: "wf_list N (default_construct s this) this []"
  by (simp add: wf_empty default_construct_def)

text \<open>
  A container that satisfies its invariant (the nodes reachable from \<^verbatim>\<open>head\<close> are the
  chain \<open>as\<close>, each with a count between 1 and \<^verbatim>\<open>NodeMaxSize\<close>) still satisfies it after
  every call of \<^verbatim>\<open>emplace\<close>, \<^verbatim>\<open>insert\<close>, \<^verbatim>\<open>emplace_back\<close>, \<^verbatim>\<open>push_back\<close>,
  \<^verbatim>\<open>push_front\<close>, \<^verbatim>\<open>erase\<close> (range or position), \<^verbatim>\<open>pop_front\<close>, \<^verbatim>\<open>pop_back\<close> or
  \<^verbatim>\<open>clear\<close> that meets its precondition and returns normally: the nodes then reachable
  from \<^verbatim>\<open>head\<close> form a chain \<open>as'\<close> in which every node has a count of at least 1. A
  freshly constructed container satisfies the invariant (\<open>wf_default_construct\<close>).
  \<^verbatim>\<open>erase(pos)\<close>, \<^verbatim>\<open>pop_front\<close>, \<^verbatim>\<open>pop_back\<close> and \<^verbatim>\<open>clear\<close> always return (\<open>erase1_wf\<close>,
  \<open>pop_front_wf\<close>, \<open>pop_back_wf\<close>, \<open>clear_wf\<close>); \<^verbatim>\<open>erase(first, last)\<close> returns when the
  range touches at most two nodes (\<open>erase_wf\<close>) and is undefined otherwise
  (\<open>erase_twice\<close>); an insertion whose constructor does not throw returns when
  \<^verbatim>\<open>NodeMaxSize >= 2\<close> (\<open>emplace_wf_total\<close>). The lemma says nothing about a call that
  leaves by an exception, nor about a container outside the invariant: see
  \<open>empty_node_left_by_throwing_insert\<close> below.
\<close>

lemma returning_operation_keeps_invariant:
  assumes "wf_list NodeMaxSize s this as" and "valid_call s as op"
    and "call NodeMaxSize s this op = Some (s', Returns ())"
  shows "\<exists>as'. chain s' this as' \<and> (\<forall>a\<in>set as'. 1 \<le> count_at s' a)
              \<and> wf_list NodeMaxSize s' this as'"
proof -
  from call_wf[OF assms] obtain as' where wf': "wf_list NodeMaxSize s' this as'" by blast
  then have "chain s' this as'" by (rule wf_listD)
  moreover have "\<forall>a\<in>set as'. 1 \<le> count_at s' a" using wf_count_ge1[OF wf'] by blast
  ultimately show ?thesis using wf' by blast
qed

lemma returning_operation_keeps_invariant_example:
  "wf_list 4 two_elements 0 [0] \<and> valid_call two_elements [0] Pop_front
   \<and> call 4 two_elements 0 Pop_front = Some (one_element, Returns ())
   \<and> (\<exists>as'. chain one_element 0 as' \<and> (\<forall>a\<in>set as'. 1 \<le> count_at one_element a))"
proof -
  have v: "valid_call two_elements [0] Pop_front" by simp
  from returning_operation_keeps_invariant [OF wf_two_elements v call_pop_front_two]
  show ?thesis using wf_two_elements v call_pop_front_two by blast
qed

text \<open>
  On a container that satisfies its invariant: when it is empty, \<^verbatim>\<open>front()\<close> and
  \<^verbatim>\<open>back()\<close> throw \<^verbatim>\<open>std::out_of_range\<close>; when it is not, the iteration from
  \<^verbatim>\<open>begin()\<close> to \<^verbatim>\<open>end()\<close> yields a non-empty sequence, \<^verbatim>\<open>front()\<close> returns its first
  element and \<^verbatim>\<open>back()\<close> its last. An empty container outside the invariant is another
  matter: see \<open>front_back_after_throwing_insert\<close> below.
\<close>

lemma front_back_well_formed:
  assumes wf: "wf_list N s this as"
  shows "(empty s this \<longrightarrow>
            front s this = Some (Throws Out_of_range) \<and> back' s this = Some (Throws Out_of_range))
       \<and> (\<not> empty s this \<longrightarrow>
            (\<exists>xs. elements s this = Some xs \<and> xs \<noteq> [] \<and>
                  front s this = Some (Returns (hd xs)) \<and>
                  back' s this = Some (Returns (last xs))))"
proof (cases "as = []")
  case True
  then have "lists s this = default_list" using wf by (simp add: wf_empty)
  then show ?thesis using wf_empty_iff[OF wf] True
    by (simp add: front_def back'_def default_list_def)
next
  case False
  have ht: "head (lists s this) = Some (hd as)" "tail (lists s this) = Some (last as)"
    using wf_head_tail[OF wf False] by auto
  have oks: "nodes_ok 1 N s as" using wf by (rule wf_listD)
  have h_in: "hd as \<in> set as" and l_in: "last as \<in> set as" using False by auto
  from oks h_in obtain nh where nh: "node_at s (hd as) = Some nh" "node_ok 1 N nh"
    by (auto simp: nodes_ok_iff)
  from oks l_in obtain nl where nl: "node_at s (last as) = Some nl" "node_ok 1 N nl"
    by (auto simp: nodes_ok_iff)
  note ph = node_vals_props[OF nh] and pl = node_vals_props[OF nl]
  have c1: "1 \<le> count nl" using nl(2) by (simp add: node_ok_iff)
  have as1: "as = hd as # tl as" and as2: "as = butlast as @ [last as]" using False by auto
  have ne: "contents s as \<noteq> []"
    using ph(1) by (subst as1) (simp add: contents_def)
  have hdc: "hd (contents s as) = hd (node_vals s (hd as))"
    using ph(1) by (subst as1) (simp add: contents_def)
  have lastc: "last (contents s as) = last (node_vals s (last as))"
    using pl(1) by (subst as2) (simp add: contents_def)
  have f: "front s this = Some (Returns (hd (contents s as)))"
    using ht nh ph(2) hdc by (simp add: front_def)
  have b: "back' s this = Some (Returns (last (contents s as)))"
    using ht nl pl(3) lastc c1 by (simp add: back'_def)
  show ?thesis using wf_empty_iff[OF wf] False elements_wf[OF wf] ne f b by simp
qed

lemma front_back_well_formed_example:
  "wf_list 4 two_elements 0 [0] \<and> \<not> empty two_elements 0
   \<and> elements two_elements 0 = Some [7, 8]
   \<and> front two_elements 0 = Some (Returns 7) \<and> back' two_elements 0 = Some (Returns 8)
   \<and> wf_list 4 (initial_state :: int state) 0 [] \<and> empty (initial_state :: int state) 0
   \<and> front (initial_state :: int state) 0 = Some (Throws Out_of_range)
   \<and> back' (initial_state :: int state) 0 = Some (Throws Out_of_range)"
proof -
  have e: "elements two_elements 0 = Some [7, 8]" by code_simp
  have ne: "\<not> empty two_elements 0" by (simp add: empty_def two_elements_def)
  have em: "empty (initial_state :: int state) 0"
    by (simp add: empty_def initial_state_def default_list_def)
  from front_back_well_formed [OF wf_two_elements] ne e
  have a: "front two_elements 0 = Some (Returns 7) \<and> back' two_elements 0 = Some (Returns 8)"
    by simp
  from front_back_well_formed [OF wf_initial_state [where 'a = int and N = 4 and this = 0]] em
  have b: "front (initial_state :: int state) 0 = Some (Throws Out_of_range)
      \<and> back' (initial_state :: int state) 0 = Some (Throws Out_of_range)"
    by simp
  show ?thesis using wf_two_elements wf_initial_state ne e em a b by simp
qed

text \<open>
  C6. Move construction of the container at \<open>b\<close> from the container at \<open>a\<close> hands the head,
  the tail and the size of \<open>a\<close> over to \<open>b\<close> and leaves the heap as it is: no node is
  created and no element is copied or moved. Afterwards \<open>a\<close> has size 0 and
  \<^verbatim>\<open>begin() == end()\<close>, and the resulting state is the very state in which \<open>a\<close> has just
  been default-constructed next to \<open>b\<close>, so every later operation on \<open>a\<close> runs as on a fresh
  empty container. When \<open>a\<close> satisfied the invariant with the chain \<open>as\<close>, \<open>b\<close> satisfies it
  afterwards with the same chain and iterates over the elements \<open>a\<close> had, and \<open>a\<close> satisfies
  it with the empty chain and iterates over nothing.
\<close>

theorem move_construct_transfers:
  assumes "b \<noteq> a"
  shows "lists (move_construct s b a) b = lists s a
       \<and> heap (move_construct s b a) = heap s
       \<and> size' (move_construct s b a) a = 0
       \<and> empty (move_construct s b a) a
       \<and> iter_eq (begin' (move_construct s b a) a) (end' a)
       \<and> move_construct s b a = default_construct (set_list s b (lists s a)) a
       \<and> (wf_list NodeMaxSize s a as \<longrightarrow>
            wf_list NodeMaxSize (move_construct s b a) b as
          \<and> wf_list NodeMaxSize (move_construct s b a) a []
          \<and> elements (move_construct s b a) b = elements s a
          \<and> elements (move_construct s b a) a = Some [])"
proof -
  let ?s' = "move_construct s b a"
  have b1: "lists ?s' b = lists s a"
    using assms by (cases "lists s a") (simp add: move_construct_def set_list_def Let_def)
  have b2: "heap ?s' = heap s"
    by (simp add: move_construct_def set_list_def Let_def)
  have la: "lists ?s' a = default_list"
    by (simp add: move_construct_def set_list_def default_list_def Let_def)
  have b3: "size' ?s' a = 0" by (simp add: size'_def la default_list_def)
  have b4: "empty ?s' a" by (simp add: empty_def la default_list_def)
  have b5: "iter_eq (begin' ?s' a) (end' a)"
    by (simp add: begin'_def end'_def iter_eq_def la default_list_def)
  have b6: "?s' = default_construct (set_list s b (lists s a)) a"
    using assms
    by (cases "lists s a")
       (simp add: move_construct_def default_construct_def default_list_def set_list_def Let_def)
  have b7: "wf_list NodeMaxSize s a as \<longrightarrow>
      wf_list NodeMaxSize ?s' b as \<and> wf_list NodeMaxSize ?s' a []
      \<and> elements ?s' b = elements s a \<and> elements ?s' a = Some []"
  proof
    assume wf: "wf_list NodeMaxSize s a as"
    have wb: "wf_list NodeMaxSize ?s' b as"
      unfolding wf_list_transfer[OF b2 b1] by (rule wf)
    have wa: "wf_list NodeMaxSize ?s' a []" by (simp add: wf_empty la)
    have "elements ?s' b = Some (contents ?s' as)" using wb by (rule elements_wf)
    also have "\<dots> = Some (contents s as)" unfolding contents_heap_cong[OF b2] by (rule refl)
    also have "\<dots> = elements s a" using wf by (rule elements_wf[symmetric])
    finally have eb: "elements ?s' b = elements s a" .
    have "elements ?s' a = Some (contents ?s' [])" using wa by (rule elements_wf)
    then have ea: "elements ?s' a = Some []" by (simp add: contents_def)
    from wb wa eb ea
    show "wf_list NodeMaxSize ?s' b as \<and> wf_list NodeMaxSize ?s' a []
      \<and> elements ?s' b = elements s a \<and> elements ?s' a = Some []"
      by (intro conjI)
  qed
  from b1 b2 b3 b4 b5 b6 b7 show ?thesis by (intro conjI)
qed

theorem move_construct_transfers_witness:
  "(1::nat) \<noteq> 0 \<and> wf_list 4 two_elements 0 [0]
   \<and> lists (move_construct two_elements 1 0) 1 = lists two_elements 0
   \<and> lists (move_construct two_elements 1 0) 0 = default_list
   \<and> heap (move_construct two_elements 1 0) = heap two_elements
   \<and> elements (move_construct two_elements 1 0) 1 = Some [7, 8]
   \<and> elements (move_construct two_elements 1 0) 0 = Some []"
proof -
  have ne: "(1::nat) \<noteq> 0" by simp
  have e: "elements two_elements 0 = Some [7, 8]" by code_simp
  have d: "lists (move_construct two_elements 1 0) 0 = default_list"
    by (simp add: move_construct_def set_list_def default_list_def Let_def)
  note t = move_construct_transfers [OF ne, of two_elements 4 "[0]"]
  note t1 = t [THEN conjunct1]
  note t2 = t [THEN conjunct2, THEN conjunct1]
  note r = t [THEN conjunct2, THEN conjunct2, THEN conjunct2, THEN conjunct2, THEN conjunct2,
      THEN conjunct2, THEN mp, OF wf_two_elements]
  note t3 = r [THEN conjunct2, THEN conjunct2, THEN conjunct1]
  note t4 = r [THEN conjunct2, THEN conjunct2, THEN conjunct2]
  have t3': "elements (move_construct two_elements 1 0) 1 = Some [7, 8]"
    unfolding t3 by (rule e)
  from ne wf_two_elements t1 d t2 t3' t4 show ?thesis by (intro conjI)
qed

section \<open>Claims settled by the definitions alone\<close>

text \<open>
  C5. With \<^verbatim>\<open>NodeMaxSize = 4\<close>, pushing 1..14 at the back of an empty container and then
  popping five times from the front leaves \<^verbatim>\<open>size() == 9\<close>, and the iteration from
  \<^verbatim>\<open>begin()\<close> to \<^verbatim>\<open>end()\<close> yields 6, 7, ..., 14 in this order.
\<close>

theorem push_14_pop_5:
  "main_push_pop 4 = Some (9, [6, 7, 8, 9, 10, 11, 12, 13, 14])"
  by code_simp

text \<open>
  C8. \<^verbatim>\<open>erase(it, it)\<close> changes nothing in the program state (so the size and the element
  sequence of the container stay as they were) and returns an iterator that compares
  equal to \<open>it\<close>, for every state and every iterator, valid or not.
\<close>

theorem erase_empty_range:
  "erase s this it it =
     Some (s, \<lparr>current_node = current_node it, index_in_node = index_in_node it, parent = this\<rparr>)
   \<and> iter_eq \<lparr>current_node = current_node it, index_in_node = index_in_node it, parent = this\<rparr> it"
  by (simp add: erase_def iter_eq_def)

text \<open>
  C9. \<^verbatim>\<open>operator++\<close> on an iterator whose node pointer is null returns the iterator as it
  is, in every state: the result does not depend on the heap, no node is read, and the end
  iterator stays equal to the end iterator.
\<close>

theorem incr_end_iterator:
  "incr s \<lparr>current_node = None, index_in_node = i, parent = c\<rparr>
     = Some \<lparr>current_node = None, index_in_node = i, parent = c\<rparr>
   \<and> incr s (end' this) = Some (end' this)
   \<and> iter_eq (end' this) (end' this)"
  by (simp add: incr_def end'_def iter_eq_def)

text \<open>
  C10. Assigning a container to itself, by copy assignment or by move assignment, returns
  at once with the whole program state unchanged.
\<close>

theorem self_assignment:
  "copy_assign NodeMaxSize s a a tmp = Some s \<and> move_assign s a a = Some s"
  by (simp add: copy_assign_def move_assign_def)

section \<open>Where the code leaves the documented behaviour\<close>

text \<open>
  C1. The table of guarantees of the repository promises the strong guarantee for
  \<^verbatim>\<open>insert\<close> and \<^verbatim>\<open>push_back\<close>. The code shifts (and splits) before it constructs the
  new element, and nothing undoes that when the constructor throws. First conjunct: the
  container after \<^verbatim>\<open>push_back\<close> of 1, 2, 3 with \<^verbatim>\<open>NodeMaxSize = 4\<close>. Second conjunct:
  \<^verbatim>\<open>emplace(begin(), args)\<close> with a throwing constructor leaves \<^verbatim>\<open>size() == 3\<close> and the
  node's count 3, but slot 0 is destroyed storage and the value 3 sits in slot 3, beyond
  the count, so the range-for reads a slot with no object. Third conjunct: the same call
  on an empty container leaves a head node with count 0 behind, with \<^verbatim>\<open>size() == 0\<close> and
  \<^verbatim>\<open>begin() != end()\<close>.
\<close>

theorem emplace_throw_not_rolled_back:
  "(push_back_range 4 (default_construct initial_state 0) 0 1 3
      \<bind> (\<lambda>s. Some (size' s 0, heap s, elements s 0)))
     = Some (3, [Some \<lparr>count = 3, next' = None, prev = None,
                        data = [Obj 1, Obj 2, Obj 3, Raw]\<rparr>], Some [1, 2, 3])
   \<and> (push_back_range 4 (default_construct initial_state 0) 0 1 3
      \<bind> (\<lambda>s. emplace 4 s 0 (begin' s 0) Throwing)
      \<bind> (\<lambda>(s', r). Some (r, size' s' 0, heap s', elements s' 0)))
     = Some (Throws Constructor_threw, 3,
             [Some \<lparr>count = 3, next' = None, prev = None,
                    data = [Raw, Obj 1, Obj 2, Obj 3]\<rparr>], None)
   \<and> (emplace 4 (default_construct (initial_state :: int state) 0) 0 (end' 0) Throwing
      \<bind> (\<lambda>(s', r). Some (r, size' s' 0, heap s', lists s' 0,
                            iter_eq (begin' s' 0) (end' 0))))
     = Some (Throws Constructor_threw, 0,
             [Some \<lparr>count = 0, next' = None, prev = None, data = [Raw, Raw, Raw, Raw]\<rparr>],
             \<lparr>head = Some 0, tail = Some 0, total_size = 0\<rparr>, False)"
  by code_simp

text \<open>The container \<open>thrown\<close>: what a throwing \<^verbatim>\<open>push_back\<close> makes of an empty container.\<close>

lemma replicate_4: "replicate 4 x = [x, x, x, x]"
  by (simp add: eval_nat_numeral)

lemma push_back_thrown:
  "push_back 4 (default_construct initial_state 0) 0 Throwing
     = Some (thrown, Throws Constructor_threw)"
  by (simp add: push_back_def emplace_back_def emplace_def emplace_into_node_def
      shift_and_construct_def create_node_def set_list_def set_node_def node_at_def end'_def
      default_construct_def initial_state_def default_list_def Let_def shift_loop.simps
      thrown_def replicate_4)

lemma chain_thrown: "chain thrown 0 [0]" "count_at thrown 0 = 0"
  by (simp_all add: chain_def thrown_def links_at_def node_at_def count_at_def)

lemma pop_front_thrown: "pop_front thrown 0 = Some thrown"
  by (simp add: pop_front_def erase1_def begin'_def incr_def erase_def iter_eq_def
      thrown_def node_at_def size_minus_def)

lemma pop_back_thrown: "pop_back thrown 0 = Some thrown"
  by (simp add: pop_back_def decr_def end'_def erase1_def incr_def erase_def iter_eq_def
      thrown_def node_at_def size_minus_def)

lemma front_back_thrown:
  "front thrown 0 = None" "back' thrown 0 = None" "empty thrown 0" "size' thrown 0 = 0"
  "head (lists thrown 0) = Some 0"
  by (simp_all add: front_def back'_def thrown_def node_at_def elem_def size_minus_def
      empty_def size'_def)

lemma front_back_default:
  "front (default_construct (initial_state :: int state) 0) 0 = Some (Throws Out_of_range)"
  "back' (default_construct (initial_state :: int state) 0) 0 = Some (Throws Out_of_range)"
  by (simp_all add: front_def back'_def default_construct_def initial_state_def
      default_list_def)

text \<open>
  C4. \<^verbatim>\<open>emplace\<close> on an empty container creates the head node before it constructs the
  element. When the constructor throws, \<^verbatim>\<open>push_back\<close> is left by the exception with that
  node linked as \<^verbatim>\<open>head\<close> and \<^verbatim>\<open>tail\<close> and its count 0: a node reachable from
  \<^verbatim>\<open>head\<close> that holds no element. Nothing removes it afterwards: \<^verbatim>\<open>pop_front()\<close> and
  \<^verbatim>\<open>pop_back()\<close> on this container return normally (\<^verbatim>\<open>erase\<close> stops at
  \<^verbatim>\<open>total_size == 0\<close>) and leave the state as it is, empty node included.
\<close>

theorem empty_node_left_by_throwing_insert:
  "push_back 4 (default_construct initial_state 0) 0 Throwing
     = Some (thrown, Throws Constructor_threw)
   \<and> chain thrown 0 [0] \<and> count_at thrown 0 = 0
   \<and> call 4 thrown 0 Pop_front = Some (thrown, Returns ())
   \<and> call 4 thrown 0 Pop_back = Some (thrown, Returns ())"
  by (simp add: push_back_thrown chain_thrown pop_front_thrown pop_back_thrown returned_def)

text \<open>
  C7. \<^verbatim>\<open>front()\<close> and \<^verbatim>\<open>back()\<close> test \<^verbatim>\<open>!head\<close> and \<^verbatim>\<open>!tail\<close>, not \<^verbatim>\<open>empty()\<close>. On a
  default-constructed container they throw \<^verbatim>\<open>std::out_of_range\<close>. On the container that a
  throwing \<^verbatim>\<open>push_back\<close> leaves behind, \<^verbatim>\<open>size()\<close> is 0 and \<^verbatim>\<open>empty()\<close> is true, but
  \<^verbatim>\<open>head\<close> is not null: \<^verbatim>\<open>front()\<close> throws nothing and returns \<^verbatim>\<open>*head->elem(0)\<close>, a slot
  of raw storage, and \<^verbatim>\<open>back()\<close> returns \<^verbatim>\<open>*tail->elem(tail->count - 1)\<close> with
  \<^verbatim>\<open>count - 1\<close> wrapped around, outside the node. Neither has a defined value (\<open>None\<close>).
\<close>

theorem front_back_after_throwing_insert:
  "front (default_construct (initial_state :: int state) 0) 0 = Some (Throws Out_of_range)
   \<and> back' (default_construct (initial_state :: int state) 0) 0 = Some (Throws Out_of_range)
   \<and> push_back 4 (default_construct initial_state 0) 0 Throwing
       = Some (thrown, Throws Constructor_threw)
   \<and> size' thrown 0 = 0 \<and> empty thrown 0 \<and> head (lists thrown 0) = Some 0
   \<and> front thrown 0 = None \<and> back' thrown 0 = None"
  by (simp add: push_back_thrown front_back_thrown front_back_default)

text \<open>
  C3. Erasing from the second element to \<^verbatim>\<open>end()\<close> in the one-node container 1, 2, 3:
  the container becomes 1 and no element follows the erased range, but the iterator
  returned is (head node, index 1), which is not equal to \<^verbatim>\<open>end()\<close> and denotes a
  destroyed slot at the node's count.
\<close>

theorem erase_to_end_returns_stale_position:
  "(push_back_range 4 (default_construct initial_state 0) 0 1 3
      \<bind> (\<lambda>s. incr s (begin' s 0)
      \<bind> (\<lambda>it. erase s 0 it (end' 0)))
      \<bind> (\<lambda>(s', r). Some (r, iter_eq r (end' 0), elements s' 0, heap s', deref s' r)))
     = Some (\<lparr>current_node = Some 0, index_in_node = 1, parent = 0\<rparr>, False, Some [1],
             [Some \<lparr>count = 1, next' = None, prev = None, data = [Obj 1, Raw, Raw, Raw]\<rparr>],
             None)"
  by code_simp

text \<open>
  C2 at \<^verbatim>\<open>NodeMaxSize = 1\<close>. The split of the full one-slot node moves \<^verbatim>\<open>1 / 2 = 0\<close>
  elements: the new node is empty, the old one stays full, and \<^verbatim>\<open>ptr > node->count\<close> is
  false for \<^verbatim>\<open>ptr = 1\<close>, so the insertion goes on in the old node at index 1, outside its
  one slot. The second \<^verbatim>\<open>push_back\<close> therefore has no defined behaviour.
\<close>

theorem split_of_one_slot_node:
  "(push_back_range 1 (default_construct initial_state 0) 0 1 1
      \<bind> (\<lambda>s. Some (heap s, elements s 0)))
     = Some ([Some \<lparr>count = 1, next' = None, prev = None, data = [Obj 1]\<rparr>], Some [1])
   \<and> (push_back_range 1 (default_construct initial_state 0) 0 1 1
      \<bind> (\<lambda>s. split_node 1 s 0 0 1)
      \<bind> (\<lambda>(s', node, ptr). Some (heap s', lists s' 0, node, ptr)))
     = Some ([Some \<lparr>count = 1, next' = Some 1, prev = None, data = [Obj 1]\<rparr>,
              Some \<lparr>count = 0, next' = None, prev = Some 0, data = [Raw]\<rparr>],
             \<lparr>head = Some 0, tail = Some 1, total_size = 1\<rparr>, 0, 1)
   \<and> (push_back_range 1 (default_construct initial_state 0) 0 1 1
      \<bind> (\<lambda>s. push_back 1 s 0 (Builds 2))) = None"
  by code_simp

end
